theory Spec2Isabelle
  imports Main "HOL-Library.Sublist"
begin

section \<open>Secure tar.gz extraction of the artifact cache (package uploader)\<close>

text \<open>
  The development embeds the extractor of the uploader package: \<open>UntarGz\<close>,
  \<open>extractArchive\<close>, \<open>processEntry\<close>, \<open>isPathSafe\<close>, \<open>handleDirectory\<close>,
  \<open>handleRegularFile\<close>, \<open>validateTotalSize\<close> and \<open>trackingWriter.Write\<close>.

  What the extractor calls but does not define is modelled as its environment:
  \<^item> \<open>path/filepath\<close> (\<open>Clean\<close>, \<open>Join\<close>, \<open>Abs\<close>, \<open>Dir\<close>) with the Unix separator;
  \<^item> the file system, a namespace of directories and regular files without symbolic links.
    Creating a directory or a file fails for a regular file in the place of a directory,
    for a name or a path that is too long, and for a directory that the process may not
    search or write; a write to an open file may fail, and each chunk of content says
    whether its write does. Lack of room or of other resources of the operating system is
    not modelled for the creation of directories and files;
  \<^item> the decoded archive: the sequence of results of \<open>tar.Reader.Next\<close>, each entry with
    the results of reading its content. The content of an entry is any sequence of chunks:
    that \<open>archive/tar\<close> frames the content by the declared size is a fact of that
    library, not of the extractor, and is stated as a hypothesis where a theorem needs it;
  \<^item> \<open>io.Copy\<close>, the loop that reads a chunk and writes it.
  Diagnostic output (\<open>fmt.Printf\<close>) is not modelled.
\<close>

subsection \<open>Machine integers\<close>

text \<open>
  \<open>int64\<close> values are integers; every addition and multiplication of the source is
  wrapped to 64 bits in two's complement by \<open>i64\<close>.
\<close>

definition i64 :: "int \<Rightarrow> int" where
  "i64 x = (x + 2 ^ 63) mod 2 ^ 64 - 2 ^ 63"

definition MaxFileSize :: int where
  "MaxFileSize = 2 * 1024 * 1024 * 1024"

definition MaxTotalSize :: int where
  "MaxTotalSize = 8 * 1024 * 1024 * 1024"

subsection \<open>Paths (path/filepath on Unix)\<close>

type_synonym path = "string list"

text \<open>\<open>strings.Split(s, "/")\<close>: the pieces between separators, at least one piece.\<close>

fun split_sep :: "string \<Rightarrow> string list" where
  "split_sep [] = [[]]"
| "split_sep (c # cs) =
     (if c = CHR ''/'' then [] # split_sep cs
      else (case split_sep cs of [] \<Rightarrow> [[c]] | x # xs \<Rightarrow> (c # x) # xs))"

text \<open>\<open>strings.Join(elems, "/")\<close>.\<close>

fun join_sep :: "string list \<Rightarrow> string" where
  "join_sep [] = []"
| "join_sep [e] = e"
| "join_sep (e # es) = e @ CHR ''/'' # join_sep es"

definition filepath_IsAbs :: "string \<Rightarrow> bool" where
  "filepath_IsAbs p = (case p of [] \<Rightarrow> False | c # _ \<Rightarrow> c = CHR ''/'')"

text \<open>
  The element pass of \<open>filepath.Clean\<close>: empty elements and \<open>.\<close> are dropped, \<open>..\<close>
  removes the element before it, is dropped at the root of a rooted path and is kept at
  the start of a relative one. The second argument is the output so far, last element
  first.
\<close>

fun clean_elems :: "bool \<Rightarrow> string list \<Rightarrow> string list \<Rightarrow> string list" where
  "clean_elems rooted out [] = rev out"
| "clean_elems rooted out (e # es) =
     (if e = [] \<or> e = ''.'' then clean_elems rooted out es
      else if e = ''..'' then
        (case out of
           [] \<Rightarrow> if rooted then clean_elems rooted [] es else clean_elems rooted [e] es
         | a # out' \<Rightarrow>
             if a = ''..'' then clean_elems rooted (e # out) es
             else clean_elems rooted out' es)
      else clean_elems rooted (e # out) es)"

definition filepath_Clean :: "string \<Rightarrow> string" where
  "filepath_Clean p =
     (if p = [] then ''.''
      else if filepath_IsAbs p then CHR ''/'' # join_sep (clean_elems True [] (split_sep p))
      else (case clean_elems False [] (split_sep p) of
              [] \<Rightarrow> ''.''
            | es \<Rightarrow> join_sep es))"

text \<open>\<open>filepath.Join\<close>: leading empty elements are ignored, the rest is joined and cleaned.\<close>

definition filepath_Join :: "string list \<Rightarrow> string" where
  "filepath_Join elem =
     (case dropWhile (\<lambda>e. e = []) elem of
        [] \<Rightarrow> []
      | es \<Rightarrow> filepath_Clean (join_sep es))"

text \<open>
  \<open>filepath.Abs\<close>: an absolute path is cleaned; a relative one is joined to the working
  directory, and the call fails when \<open>os.Getwd\<close> does (\<open>wd = None\<close>).
\<close>

definition filepath_Abs :: "string option \<Rightarrow> string \<Rightarrow> string option" where
  "filepath_Abs wd p =
     (if filepath_IsAbs p then Some (filepath_Clean p)
      else (case wd of None \<Rightarrow> None | Some d \<Rightarrow> Some (filepath_Join [d, p])))"

text \<open>
  \<open>filepath.Dir\<close>: everything up to and including the last separator, cleaned. In terms
  of \<open>split_sep\<close> that is every piece but the last, each followed by a separator.
\<close>

definition filepath_Dir :: "string \<Rightarrow> string" where
  "filepath_Dir p = filepath_Clean (concat (map (\<lambda>e. e @ ''/'') (butlast (split_sep p))))"

text \<open>
  The components by which the file system resolves an absolute path. The extractor only
  hands cleaned absolute paths to the file system (the destination root comes from
  \<open>filepath.Abs\<close>); a relative path is resolved here from the root directory.
\<close>

definition resolve :: "string \<Rightarrow> path" where
  "resolve p = clean_elems True [] (split_sep p)"

subsection \<open>The file system\<close>

text \<open>
  A file system maps the components of an absolute path to a directory or a regular
  file. A node carries the permission bits it was created with. The process that extracts
  has no privileges and owns the nodes, and its umask clears no owner bit, so what it may do
  with a node is decided by the owner bits of the node: \<open>0200\<close> to write, \<open>0100\<close> to
  search a directory.
\<close>

type_synonym perm = int

datatype node = Dir perm | File perm string

type_synonym fs = "path \<rightharpoonup> node"

datatype os_error =
  ENOTDIR | EISDIR | ENOENT | EBADF | EIO | EACCES | ENAMETOOLONG | EEXIST

definition is_file :: "node option \<Rightarrow> bool" where
  "is_file n = (case n of Some (File _ _) \<Rightarrow> True | _ \<Rightarrow> False)"

definition is_dir :: "node option \<Rightarrow> bool" where
  "is_dir n = (case n of Some (Dir _) \<Rightarrow> True | _ \<Rightarrow> False)"

definition may_write :: "perm \<Rightarrow> bool" where
  "may_write m = (and m 128 \<noteq> 0)"

definition may_search :: "perm \<Rightarrow> bool" where
  "may_search m = (and m 64 \<noteq> 0)"

text \<open>
  The limits of the operating system on names: an element of a path has at most
  \<open>NAME_MAX\<close> bytes, and a path, with its terminating zero byte, at most \<open>PATH_MAX\<close>.
  The length of a cleaned absolute path is that of its elements, each after a separator.
\<close>

definition NAME_MAX :: nat where
  "NAME_MAX = 255"

definition PATH_MAX :: nat where
  "PATH_MAX = 4096"

definition path_len :: "path \<Rightarrow> nat" where
  "path_len q = sum_list (map (\<lambda>e. Suc (length e)) q)"

text \<open>
  Path resolution, from the directory \<open>d\<close> along the elements that remain: every
  directory on the way must exist and be searchable, and no element may be longer than
  \<open>NAME_MAX\<close>. The result is the node at the end.
\<close>

fun lookup :: "fs \<Rightarrow> path \<Rightarrow> string list \<Rightarrow> os_error + node" where
  "lookup fs d [] = (case fs d of None \<Rightarrow> Inl ENOENT | Some n \<Rightarrow> Inr n)"
| "lookup fs d (e # es) =
     (case fs d of
        None \<Rightarrow> Inl ENOENT
      | Some (File _ _) \<Rightarrow> Inl ENOTDIR
      | Some (Dir m) \<Rightarrow>
          if \<not> may_search m then Inl EACCES
          else if NAME_MAX < length e then Inl ENAMETOOLONG
          else lookup fs (d @ [e]) es)"

text \<open>\<open>os.Stat\<close>: the node at the path, \<open>None\<close> when the call fails.\<close>

definition os_Stat :: "fs \<Rightarrow> string \<Rightarrow> node option" where
  "os_Stat fs p =
     (let q = resolve p in
      if PATH_MAX \<le> path_len q then None
      else (case lookup fs [] q of Inr n \<Rightarrow> Some n | Inl e \<Rightarrow> None))"

text \<open>
  \<open>os.MkdirAll\<close> calls \<open>os.Stat\<close> on the path, itself on the parent when nothing
  is found, and then \<open>mkdir\<close>. Its effect is that of a walk along the directories of the
  path from the root: one that exists is entered, a missing one is created with the given
  permission bits, and the first failure ends the call, leaving what was created before
  it. A step fails when the path so far is too long (an intermediate path is passed with a
  trailing separator), when the directory it starts from may not be searched, when the
  element is too long, when a regular file is in the place of the directory (found by
  \<open>os.Stat\<close> at the end of the path, by \<open>mkdir\<close> before it), and when the directory
  is missing and the one it starts from may not be written.
\<close>

fun mkdir_walk :: "fs \<Rightarrow> path \<Rightarrow> string list \<Rightarrow> perm \<Rightarrow> os_error option \<times> fs" where
  "mkdir_walk fs d [] pm =
     (case fs d of
        Some (Dir _) \<Rightarrow> (None, fs)
      | Some (File _ _) \<Rightarrow> (Some ENOTDIR, fs)
      | None \<Rightarrow> (Some ENOENT, fs))"
| "mkdir_walk fs d (e # es) pm =
     (if PATH_MAX \<le> path_len (d @ [e]) + (if es = [] then 0 else 1)
      then (Some ENAMETOOLONG, fs)
      else
        (case fs d of
           None \<Rightarrow> (Some ENOENT, fs)
         | Some (File _ _) \<Rightarrow> (Some ENOTDIR, fs)
         | Some (Dir m) \<Rightarrow>
             if \<not> may_search m then (Some EACCES, fs)
             else if NAME_MAX < length e then (Some ENAMETOOLONG, fs)
             else
               (case fs (d @ [e]) of
                  Some (Dir _) \<Rightarrow> mkdir_walk fs (d @ [e]) es pm
                | Some (File _ _) \<Rightarrow> (Some (if es = [] then ENOTDIR else EEXIST), fs)
                | None \<Rightarrow>
                    if \<not> may_write m then (Some EACCES, fs)
                    else mkdir_walk (fs(d @ [e] \<mapsto> Dir pm)) (d @ [e]) es pm)))"

definition os_MkdirAll :: "fs \<Rightarrow> string \<Rightarrow> perm \<Rightarrow> (os_error \<times> fs) + fs" where
  "os_MkdirAll fs p pm =
     (case mkdir_walk fs [] (resolve p) pm of
        (None, fs') \<Rightarrow> Inr fs'
      | (Some e, fs') \<Rightarrow> Inl (e, fs'))"

text \<open>
  \<open>os.OpenFile\<close> with \<open>O_CREATE|O_TRUNC|O_WRONLY\<close>: the directory of the file is
  resolved and must be searchable; an existing regular file that may be written is
  truncated and keeps its permission bits; a missing one is created empty when its
  directory may be written; a directory cannot be opened for writing. The open file is
  named by its path.
\<close>

definition os_OpenFile :: "fs \<Rightarrow> string \<Rightarrow> perm \<Rightarrow> os_error + fs" where
  "os_OpenFile fs p pm =
     (let q = resolve p in
      if PATH_MAX \<le> path_len q then Inl ENAMETOOLONG
      else if q = [] then Inl EISDIR
      else
        (case lookup fs [] (butlast q) of
           Inl e \<Rightarrow> Inl e
         | Inr (File _ _) \<Rightarrow> Inl ENOTDIR
         | Inr (Dir dm) \<Rightarrow>
             if \<not> may_search dm then Inl EACCES
             else if NAME_MAX < length (last q) then Inl ENAMETOOLONG
             else
               (case fs q of
                  Some (Dir _) \<Rightarrow> Inl EISDIR
                | Some (File m _) \<Rightarrow>
                    if may_write m then Inr (fs(q \<mapsto> File m [])) else Inl EACCES
                | None \<Rightarrow>
                    if may_write dm then Inr (fs(q \<mapsto> File pm [])) else Inl EACCES)))"

text \<open>
  A write to the open file appends at its end. The operating system either takes the whole
  chunk or fails after a part of it (\<open>WriteFails k\<close>: after at most \<open>k\<close> bytes).
\<close>

datatype wout = WriteOK | WriteFails nat

definition file_Write :: "fs \<Rightarrow> string \<Rightarrow> string \<Rightarrow> wout \<Rightarrow> int \<times> os_error option \<times> fs" where
  "file_Write fs f p w =
     (case fs (resolve f) of
        Some (File m c) \<Rightarrow>
          (case w of
             WriteOK \<Rightarrow> (int (length p), None, fs(resolve f \<mapsto> File m (c @ p)))
           | WriteFails k \<Rightarrow>
               (int (min k (length p)), Some EIO, fs(resolve f \<mapsto> File m (c @ take k p))))
      | _ \<Rightarrow> (0, Some EBADF, fs))"

text \<open>
  \<open>os.Remove\<close>, whose error the extractor ignores: a regular file or an empty directory
  is removed, anything else is left. The extractor removes only a file it has just opened
  for writing; the access checks of the removal are not modelled.
\<close>

definition os_Remove :: "fs \<Rightarrow> string \<Rightarrow> fs" where
  "os_Remove fs p =
     (let q = resolve p in
      case fs q of
        None \<Rightarrow> fs
      | Some (File _ _) \<Rightarrow> fs(q := None)
      | Some (Dir _) \<Rightarrow> if \<exists>x. strict_prefix q x \<and> fs x \<noteq> None then fs else fs(q := None))"

subsection \<open>Archive entries and errors\<close>

record header =
  Name :: string
  Typeflag :: char
  Size :: int
  Mode :: int
  Linkname :: string

abbreviation TypeReg :: char where "TypeReg \<equiv> CHR ''0''"
abbreviation TypeLink :: char where "TypeLink \<equiv> CHR ''1''"
abbreviation TypeSymlink :: char where "TypeSymlink \<equiv> CHR ''2''"
abbreviation TypeDir :: char where "TypeDir \<equiv> CHR ''5''"

text \<open>
  The content of an entry as \<open>io.Copy\<close> sees it: the chunks returned by successive reads,
  each with the outcome of its write to the disk, and how the reads end.
\<close>

datatype rend = EOF | ReadError

type_synonym body = "(string \<times> wout) list \<times> rend"

text \<open>What \<open>tar.Reader.Next\<close> returns, call after call; the end of the list is \<open>io.EOF\<close>.\<close>

datatype item = Entry header body | NilHeader | BadHeader

datatype input = NotGzip | Gzip "item list"

datatype error =
    ErrAbs
  | ErrGzip
  | ErrReadHeader
  | ErrFileTooLarge string
  | ErrUnsafePath string
  | ErrCreateDirectory string error
  | ErrExtractFile string error
  | ErrLinkNotAllowed string
  | ErrTotalSize
  | ErrNotADirectory string
  | ErrParentDirectory error
  | ErrCreateFile error
  | ErrWriteContent error
  | ErrSizeAnomaly string int int
  | ErrOS os_error
  | ErrRead
  | ErrShortWrite
  | ErrInvalidWrite

subsection \<open>The extractor\<close>

text \<open>\<open>validateTotalSize\<close>.\<close>

definition validateTotalSize :: "int \<Rightarrow> int \<Rightarrow> error option" where
  "validateTotalSize totalWritten additionalBytes =
     (if i64 (totalWritten + additionalBytes) > MaxTotalSize then Some ErrTotalSize else None)"

record trackingWriter =
  writer :: string
  currentTotal :: int
  written :: int

text \<open>\<open>trackingWriter.Write\<close>: bytes accepted, error, the writer and the file system after.\<close>

definition trackingWriter_Write ::
  "trackingWriter \<Rightarrow> string \<Rightarrow> wout \<Rightarrow> fs \<Rightarrow> int \<times> error option \<times> trackingWriter \<times> fs" where
  "trackingWriter_Write tw p w fs =
     (case validateTotalSize (i64 (currentTotal tw + written tw)) (int (length p)) of
        Some e \<Rightarrow> (0, Some e, tw, fs)
      | None \<Rightarrow>
          (case file_Write fs (writer tw) p w of
             (n, err, fs') \<Rightarrow>
               (n, map_option ErrOS err, tw\<lparr>written := i64 (written tw + n)\<rparr>, fs')))"

text \<open>
  \<open>io.Copy\<close> into the tracking writer: an empty read writes nothing; a write error or a
  short write stops the copy; the reads end with \<open>io.EOF\<close> (no error) or an error.
\<close>

fun io_Copy ::
  "trackingWriter \<Rightarrow> (string \<times> wout) list \<Rightarrow> rend \<Rightarrow> int \<Rightarrow> fs
     \<Rightarrow> int \<times> error option \<times> trackingWriter \<times> fs" where
  "io_Copy tw [] r n fs = (n, (case r of EOF \<Rightarrow> None | ReadError \<Rightarrow> Some ErrRead), tw, fs)"
| "io_Copy tw ((p, w) # rest) r n fs =
     (if p = [] then io_Copy tw rest r n fs
      else (case trackingWriter_Write tw p w fs of
              (nw, ew, tw', fs') \<Rightarrow>
                if nw < 0 \<or> int (length p) < nw
                then (n, Some (case ew of None \<Rightarrow> ErrInvalidWrite | Some e \<Rightarrow> e), tw', fs')
                else if ew \<noteq> None then (i64 (n + nw), ew, tw', fs')
                else if int (length p) \<noteq> nw then (i64 (n + nw), Some ErrShortWrite, tw', fs')
                else io_Copy tw' rest r (i64 (n + nw)) fs'))"

text \<open>\<open>os.FileMode(header.Mode) & os.ModePerm\<close>, with the default for zero.\<close>

definition perm_or :: "header \<Rightarrow> perm \<Rightarrow> perm" where
  "perm_or h dflt = (let mode = and (take_bit 32 (Mode h)) 511 in if mode = 0 then dflt else mode)"

text \<open>\<open>isPathSafe\<close>.\<close>

definition isPathSafe :: "string option \<Rightarrow> string \<Rightarrow> string \<Rightarrow> bool" where
  "isPathSafe wd target dst =
     (case filepath_Abs wd target of
        None \<Rightarrow> False
      | Some absTarget \<Rightarrow> prefix (dst @ ''/'') absTarget \<or> absTarget = dst)"

text \<open>\<open>handleDirectory\<close>.\<close>

definition handleDirectory :: "string \<Rightarrow> header \<Rightarrow> fs \<Rightarrow> error option \<times> fs" where
  "handleDirectory target h fs =
     (case os_Stat fs target of
        Some (File _ _) \<Rightarrow> (Some (ErrNotADirectory target), fs)
      | Some (Dir _) \<Rightarrow> (None, fs)
      | None \<Rightarrow>
          (case os_MkdirAll fs target (perm_or h 493) of
             Inl (e, fs') \<Rightarrow> (Some (ErrOS e), fs')
           | Inr fs' \<Rightarrow> (None, fs')))"

text \<open>\<open>handleRegularFile\<close>: the bytes written or the error, and the file system after.\<close>

definition handleRegularFile ::
  "string \<Rightarrow> header \<Rightarrow> body \<Rightarrow> int \<Rightarrow> fs \<Rightarrow> (error + int) \<times> fs" where
  "handleRegularFile target h tr cur fs =
     (case os_MkdirAll fs (filepath_Dir target) 493 of
        Inl (e, fs1) \<Rightarrow> (Inl (ErrParentDirectory (ErrOS e)), fs1)
      | Inr fs1 \<Rightarrow>
          (case os_OpenFile fs1 target (perm_or h 420) of
             Inl e \<Rightarrow> (Inl (ErrCreateFile (ErrOS e)), fs1)
           | Inr fs2 \<Rightarrow>
               (case io_Copy \<lparr>writer = target, currentTotal = cur, written = 0\<rparr>
                       (fst tr) (snd tr) 0 fs2 of
                  (n, Some e, tw, fs3) \<Rightarrow> (Inl (ErrWriteContent e), os_Remove fs3 target)
                | (n, None, tw, fs3) \<Rightarrow>
                    if n > i64 (Size h * 2)
                    then (Inl (ErrSizeAnomaly (Name h) n (Size h)), os_Remove fs3 target)
                    else (Inr n, fs3))))"

text \<open>\<open>processEntry\<close>: the error, the running total and the file system after.\<close>

definition processEntry ::
  "header \<Rightarrow> string \<Rightarrow> body \<Rightarrow> int \<Rightarrow> fs \<Rightarrow> error option \<times> int \<times> fs" where
  "processEntry h target tr totalWritten fs =
     (if Typeflag h = TypeDir then
        (case handleDirectory target h fs of
           (Some e, fs') \<Rightarrow> (Some (ErrCreateDirectory (Name h) e), totalWritten, fs')
         | (None, fs') \<Rightarrow> (None, totalWritten, fs'))
      else if Typeflag h = TypeReg then
        (case handleRegularFile target h tr totalWritten fs of
           (Inl e, fs') \<Rightarrow> (Some (ErrExtractFile (Name h) e), totalWritten, fs')
         | (Inr n, fs') \<Rightarrow> (None, i64 (totalWritten + n), fs'))
      else if Typeflag h = TypeSymlink \<or> Typeflag h = TypeLink then
        (Some (ErrLinkNotAllowed (Name h)), totalWritten, fs)
      else (None, totalWritten, fs))"

text \<open>\<open>extractArchive\<close>: the loop over the entries.\<close>

fun extractArchive ::
  "string option \<Rightarrow> item list \<Rightarrow> string \<Rightarrow> int \<Rightarrow> fs \<Rightarrow> error option \<times> int \<times> fs" where
  "extractArchive wd [] absDst totalWritten fs = (None, totalWritten, fs)"
| "extractArchive wd (BadHeader # rest) absDst totalWritten fs =
     (Some ErrReadHeader, totalWritten, fs)"
| "extractArchive wd (NilHeader # rest) absDst totalWritten fs =
     extractArchive wd rest absDst totalWritten fs"
| "extractArchive wd (Entry h tr # rest) absDst totalWritten fs =
     (if Size h > MaxFileSize then (Some (ErrFileTooLarge (Name h)), totalWritten, fs)
      else
        (let target = filepath_Join [absDst, Name h] in
         if \<not> isPathSafe wd target absDst then (Some (ErrUnsafePath (Name h)), totalWritten, fs)
         else
           (case processEntry h target tr totalWritten fs of
              (Some e, tw', fs') \<Rightarrow> (Some e, tw', fs')
            | (None, tw', fs') \<Rightarrow> extractArchive wd rest absDst tw' fs')))"

text \<open>\<open>UntarGz\<close> with \<open>setupExtraction\<close>: the error and the file system after.\<close>

definition UntarGz :: "string option \<Rightarrow> string \<Rightarrow> input \<Rightarrow> fs \<Rightarrow> error option \<times> fs" where
  "UntarGz wd dst r fs =
     (case filepath_Abs wd dst of
        None \<Rightarrow> (Some ErrAbs, fs)
      | Some absDst \<Rightarrow>
          (case r of
             NotGzip \<Rightarrow> (Some ErrGzip, fs)
           | Gzip items \<Rightarrow>
               (case extractArchive wd items absDst 0 fs of
                  (e, tw', fs') \<Rightarrow> (e, fs'))))"

subsection \<open>Example inputs\<close>

text \<open>A destination root \<open>/R\<close> that exists and is empty, and the entries of the examples.\<close>

definition ex_fs :: fs where
  "ex_fs = [[] \<mapsto> Dir 493, [''R''] \<mapsto> Dir 493]"

definition ex_dir :: header where
  "ex_dir = \<lparr>Name = ''a/'', Typeflag = TypeDir, Size = 0, Mode = 493, Linkname = []\<rparr>"

definition ex_file :: header where
  "ex_file = \<lparr>Name = ''a/b.txt'', Typeflag = TypeReg, Size = 2, Mode = 420, Linkname = []\<rparr>"

definition ex_escape :: header where
  "ex_escape =
     \<lparr>Name = ''../escape.txt'', Typeflag = TypeReg, Size = 5, Mode = 420, Linkname = []\<rparr>"

definition ex_symlink :: header where
  "ex_symlink =
     \<lparr>Name = ''evil'', Typeflag = TypeSymlink, Size = 0, Mode = 511, Linkname = ''/etc/passwd''\<rparr>"

definition ex_f :: header where
  "ex_f = \<lparr>Name = ''f'', Typeflag = TypeReg, Size = 1, Mode = 420, Linkname = []\<rparr>"

text \<open>The file \<open>a/b.txt\<close> with three bytes declared.\<close>

definition ex_three :: header where
  "ex_three = \<lparr>Name = ''a/b.txt'', Typeflag = TypeReg, Size = 3, Mode = 420, Linkname = []\<rparr>"

text \<open>The root with an open, still empty file \<open>/R/f\<close>, and with a regular file \<open>/R/a\<close>.\<close>

definition ex_open :: fs where
  "ex_open = ex_fs([''R'', ''f''] \<mapsto> File 420 [])"

definition ex_conflict :: fs where
  "ex_conflict = ex_fs([''R'', ''a''] \<mapsto> File 420 ''x'')"

subsection \<open>Predicates of the statements\<close>

text \<open>
  The invariant of a tracking writer during an extraction: both counters are non-negative
  and the bytes written so far, in earlier entries and in this one, are within the total
  limit.
\<close>

definition tw_inv :: "trackingWriter \<Rightarrow> bool" where
  "tw_inv tw =
     (0 \<le> currentTotal tw \<and> 0 \<le> written tw \<and> currentTotal tw + written tw \<le> MaxTotalSize)"

text \<open>\<open>io.Copy\<close> reads into a buffer of 32 KiB, so no chunk is longer than that.\<close>

definition chunks_fit :: "(string \<times> wout) list \<Rightarrow> bool" where
  "chunks_fit cs = list_all (\<lambda>(p, w). int (length p) \<le> 32 * 1024) cs"

fun item_fits :: "item \<Rightarrow> bool" where
  "item_fits (Entry h tr) = chunks_fit (fst tr)"
| "item_fits NilHeader = True"
| "item_fits BadHeader = True"

text \<open>The bytes of a sequence of chunks, and their number.\<close>

definition chunk_bytes :: "(string \<times> wout) list \<Rightarrow> string" where
  "chunk_bytes cs = concat (map fst cs)"

definition chunk_len :: "(string \<times> wout) list \<Rightarrow> int" where
  "chunk_len cs = int (length (chunk_bytes cs))"

text \<open>
  Elements of a path: without separator and not empty; normal ones are neither \<open>.\<close>
  nor \<open>..\<close>.
\<close>

definition seg_ok :: "string \<Rightarrow> bool" where
  "seg_ok e = (e \<noteq> [] \<and> CHR ''/'' \<notin> set e)"

definition normal :: "string \<Rightarrow> bool" where
  "normal e = (seg_ok e \<and> e \<noteq> ''.'' \<and> e \<noteq> ''..'')"

text \<open>The components of the target of an entry under the destination root.\<close>

definition tpath :: "string \<Rightarrow> header \<Rightarrow> path" where
  "tpath absDst h = resolve (filepath_Join [absDst, Name h])"

text \<open>A file system is a tree: what exists lies in directories.\<close>

definition wf_fs :: "fs \<Rightarrow> bool" where
  "wf_fs fs = (\<forall>q. fs q \<noteq> None \<longrightarrow> (\<forall>p. strict_prefix p q \<longrightarrow> is_dir (fs p)))"

text \<open>
  The content of a regular-file entry of a well-formed archive, on a disk that takes every
  write: the reads deliver as many bytes as the header declares and end with \<open>io.EOF\<close>.
\<close>

definition framed :: "header \<Rightarrow> body \<Rightarrow> bool" where
  "framed h tr =
     (snd tr = EOF \<and> chunks_fit (fst tr) \<and> list_all (\<lambda>(p, w). w = WriteOK) (fst tr)
      \<and> chunk_len (fst tr) = Size h)"

text \<open>
  An entry of the round trip: a regular file or a directory, with a declared size within
  the per-file limit and a safe path, and, for a regular file, well-formed content.
\<close>

fun entry_ok :: "string option \<Rightarrow> string \<Rightarrow> item \<Rightarrow> bool" where
  "entry_ok wd absDst (Entry h tr) =
     ((Typeflag h = TypeReg \<or> Typeflag h = TypeDir) \<and> Size h \<le> MaxFileSize
      \<and> isPathSafe wd (filepath_Join [absDst, Name h]) absDst
      \<and> (Typeflag h = TypeReg \<longrightarrow> framed h tr))"
| "entry_ok wd absDst NilHeader = False"
| "entry_ok wd absDst BadHeader = False"

text \<open>The declared sizes of the regular files of an archive, added up.\<close>

fun declared_total :: "item list \<Rightarrow> int" where
  "declared_total [] = 0"
| "declared_total (Entry h tr # rest) =
     (if Typeflag h = TypeReg then Size h else 0) + declared_total rest"
| "declared_total (NilHeader # rest) = declared_total rest"
| "declared_total (BadHeader # rest) = declared_total rest"

text \<open>The bytes of content of the regular files of an archive, added up.\<close>

fun content_total :: "item list \<Rightarrow> int" where
  "content_total [] = 0"
| "content_total (Entry h tr # rest) =
     (if Typeflag h = TypeReg then chunk_len (fst tr) else 0) + content_total rest"
| "content_total (NilHeader # rest) = content_total rest"
| "content_total (BadHeader # rest) = content_total rest"

text \<open>
  No conflict between the paths of an archive: the path of a regular file is not the
  destination root, and is neither equal to nor an ancestor of the path of another entry.
\<close>

fun conflict_free :: "string \<Rightarrow> item list \<Rightarrow> bool" where
  "conflict_free absDst [] = True"
| "conflict_free absDst (Entry h tr # rest) =
     ((Typeflag h = TypeReg \<longrightarrow> tpath absDst h \<noteq> resolve absDst)
      \<and> list_all
           (\<lambda>it. case it of
                   Entry h' tr' \<Rightarrow>
                     (Typeflag h = TypeReg \<longrightarrow> \<not> prefix (tpath absDst h) (tpath absDst h'))
                     \<and> (Typeflag h' = TypeReg \<longrightarrow> \<not> prefix (tpath absDst h') (tpath absDst h))
                 | _ \<Rightarrow> True) rest
      \<and> conflict_free absDst rest)"
| "conflict_free absDst (NilHeader # rest) = conflict_free absDst rest"
| "conflict_free absDst (BadHeader # rest) = conflict_free absDst rest"

text \<open>
  When \<open>os.MkdirAll\<close> can create the directories of a path: the root directory
  exists, the path and its elements are within the limits, no regular file is on the path,
  and every directory on the way, as it exists or as it will be created with the given
  bits, may be searched, and written where the next directory is missing.
\<close>

definition mkdir_ok :: "fs \<Rightarrow> path \<Rightarrow> perm \<Rightarrow> bool" where
  "mkdir_ok fs q pm =
     (is_dir (fs []) \<and> path_len q < PATH_MAX
      \<and> (\<forall>e \<in> set q. length e \<le> NAME_MAX)
      \<and> (\<forall>x \<in> set (prefixes q). \<not> is_file (fs x))
      \<and> (\<forall>x \<in> set (prefixes q). x \<noteq> q \<longrightarrow>
           (case fs x of
              Some (Dir m) \<Rightarrow>
                may_search m \<and> (fs (take (Suc (length x)) q) = None \<longrightarrow> may_write m)
            | _ \<Rightarrow> may_search pm \<and> may_write pm)))"

text \<open>
  The access of the process around a destination root: the directories above the root may
  be searched, and the directories from the root on may be searched and written.
\<close>

definition access_ok :: "fs \<Rightarrow> path \<Rightarrow> bool" where
  "access_ok fs R =
     ((\<forall>x. strict_prefix x R \<longrightarrow> (\<exists>m. fs x = Some (Dir m) \<and> may_search m))
      \<and> (\<forall>x m. prefix R x \<and> fs x = Some (Dir m) \<longrightarrow> may_search m \<and> may_write m))"

text \<open>
  What the operating system needs of an entry of the round trip: a path and elements
  within the limits, and for a directory entry permission bits that let the owner write
  and search.
\<close>

fun os_admits :: "string \<Rightarrow> item \<Rightarrow> bool" where
  "os_admits absDst (Entry h tr) =
     (path_len (tpath absDst h) < PATH_MAX
      \<and> list_all (\<lambda>e. length e \<le> NAME_MAX) (tpath absDst h)
      \<and> (Typeflag h = TypeDir \<longrightarrow>
           may_search (perm_or h 493) \<and> may_write (perm_or h 493)))"
| "os_admits absDst NilHeader = True"
| "os_admits absDst BadHeader = True"

section \<open>Properties\<close>

subsection \<open>The limits\<close>

text \<open>The per-file limit is 2 GiB and the total limit 8 GiB.\<close>

lemma limits: "MaxFileSize = 2 * 2 ^ 30" "MaxTotalSize = 8 * 2 ^ 30"
  by (simp_all add: MaxFileSize_def MaxTotalSize_def)

subsection \<open>The loop over the entries\<close>

text \<open>
  Extracting a sequence of entries followed by more entries: an error in the first part is
  the result; otherwise the rest is extracted from the state the first part left.
\<close>

lemma extractArchive_append:
  "extractArchive wd (pre @ rest) absDst t fs =
     (case extractArchive wd pre absDst t fs of
        (None, t', fs') \<Rightarrow> extractArchive wd rest absDst t' fs'
      | (Some e, s) \<Rightarrow> (Some e, s))"
  by (induction wd pre absDst t fs rule: extractArchive.induct)
     (auto simp: Let_def split: prod.splits option.splits)

lemma extractArchive_reached:
  assumes "fst (extractArchive wd pre absDst t fs) = None"
  shows "extractArchive wd (pre @ rest) absDst t fs =
           extractArchive wd rest absDst (fst (snd (extractArchive wd pre absDst t fs)))
             (snd (snd (extractArchive wd pre absDst t fs)))"
proof (cases "extractArchive wd pre absDst t fs")
  case (fields e t' fs')
  with assms show ?thesis by (simp add: extractArchive_append)
qed

subsection \<open>The declared-size pre-check\<close>

text \<open>
  Claim C10. The pre-check of the declared size against \<open>MaxFileSize\<close> comes before the
  path check and before the dispatch on the type flag: an entry of any type (directory,
  symbolic link, hard link, unknown) that is reached with a declared size above the limit
  ends the extraction with the size error, in the state the entries before it left; it is
  neither rejected as a link nor skipped, and no later entry is processed.
\<close>

theorem size_precheck_every_typeflag:
  assumes "fst (extractArchive wd pre absDst t fs) = None"
    and "MaxFileSize < Size h"
  shows "extractArchive wd (pre @ Entry h tr # post) absDst t fs =
           (Some (ErrFileTooLarge (Name h)), snd (extractArchive wd pre absDst t fs))"
  using assms by (simp add: extractArchive_reached)

theorem size_precheck_every_typeflag_witness:
  "fst (extractArchive None [Entry ex_dir ([], EOF)] ''/R'' 0 ex_fs) = None
   \<and> MaxFileSize < Size (ex_symlink\<lparr>Size := MaxFileSize + 1\<rparr>)
   \<and> extractArchive None
        ([Entry ex_dir ([], EOF)] @ Entry (ex_symlink\<lparr>Size := MaxFileSize + 1\<rparr>) ([], EOF)
           # [Entry ex_file ([(''hi'', WriteOK)], EOF)]) ''/R'' 0 ex_fs =
       (Some (ErrFileTooLarge ''evil''),
        snd (extractArchive None [Entry ex_dir ([], EOF)] ''/R'' 0 ex_fs))"
proof -
  have 1: "fst (extractArchive None [Entry ex_dir ([], EOF)] ''/R'' 0 ex_fs) = None"
    by code_simp
  have 2: "MaxFileSize < Size (ex_symlink\<lparr>Size := MaxFileSize + 1\<rparr>)"
    by simp
  have 3: "Name (ex_symlink\<lparr>Size := MaxFileSize + 1\<rparr>) = ''evil''"
    by (simp add: ex_symlink_def)
  show ?thesis
    using size_precheck_every_typeflag
      [OF 1 2, of "([], EOF)" "[Entry ex_file ([(''hi'', WriteOK)], EOF)]"] 1 2 3
    by simp
qed

text \<open>
  Claim C4. A regular-file entry whose declared size exceeds \<open>MaxFileSize\<close> makes the
  extraction fail, and the running total and the file system are those the entries before
  it left: no content byte of the entry is written. When the entry is reached the error is
  the one of the pre-check.
\<close>

theorem oversized_regular_file_fails_at_precheck:
  assumes "Typeflag h = TypeReg" and "MaxFileSize < Size h"
  shows "fst (extractArchive wd (pre @ Entry h tr # post) absDst t fs) \<noteq> None
         \<and> snd (extractArchive wd (pre @ Entry h tr # post) absDst t fs) =
             snd (extractArchive wd pre absDst t fs)
         \<and> (fst (extractArchive wd pre absDst t fs) = None \<longrightarrow>
              fst (extractArchive wd (pre @ Entry h tr # post) absDst t fs) =
                Some (ErrFileTooLarge (Name h)))"
proof (cases "extractArchive wd pre absDst t fs")
  case (fields e t' fs')
  with assms(2) show ?thesis
    by (cases e) (simp_all add: extractArchive_append)
qed

theorem oversized_regular_file_fails_at_precheck_witness:
  "Typeflag (ex_file\<lparr>Size := MaxFileSize + 1000\<rparr>) = TypeReg
   \<and> MaxFileSize < Size (ex_file\<lparr>Size := MaxFileSize + 1000\<rparr>)
   \<and> fst (extractArchive None [Entry ex_dir ([], EOF)] ''/R'' 0 ex_fs) = None
   \<and> fst (extractArchive None
        ([Entry ex_dir ([], EOF)]
           @ Entry (ex_file\<lparr>Size := MaxFileSize + 1000\<rparr>) ([(''hi'', WriteOK)], EOF) # [])
        ''/R'' 0 ex_fs) = Some (ErrFileTooLarge ''a/b.txt'')
   \<and> snd (extractArchive None
        ([Entry ex_dir ([], EOF)]
           @ Entry (ex_file\<lparr>Size := MaxFileSize + 1000\<rparr>) ([(''hi'', WriteOK)], EOF) # [])
        ''/R'' 0 ex_fs) = snd (extractArchive None [Entry ex_dir ([], EOF)] ''/R'' 0 ex_fs)"
proof -
  have 1: "Typeflag (ex_file\<lparr>Size := MaxFileSize + 1000\<rparr>) = TypeReg"
    by (simp add: ex_file_def)
  have 2: "MaxFileSize < Size (ex_file\<lparr>Size := MaxFileSize + 1000\<rparr>)"
    by simp
  have 3: "fst (extractArchive None [Entry ex_dir ([], EOF)] ''/R'' 0 ex_fs) = None"
    by code_simp
  have 4: "Name (ex_file\<lparr>Size := MaxFileSize + 1000\<rparr>) = ''a/b.txt''"
    by (simp add: ex_file_def)
  show ?thesis
    using oversized_regular_file_fails_at_precheck
      [OF 1 2, of None "[Entry ex_dir ([], EOF)]" "([(''hi'', WriteOK)], EOF)" "[]" "''/R''" 0 ex_fs]
      1 2 3 4
    by simp
qed

subsection \<open>Path containment\<close>

text \<open>
  Claim C1 (amended). An entry that is reached and whose name, joined with the root and
  resolved to an absolute path, is neither the root nor under the root followed by the
  separator (or cannot be resolved) ends the extraction: with the unsafe-path error when
  its declared size is within \<open>MaxFileSize\<close>, and with the size error of the pre-check,
  which comes first, otherwise. In both cases the running total and the file system are
  those the entries before it left: nothing is created or written for the entry, and no
  later entry is processed.
\<close>

theorem unsafe_entry_rejected:
  assumes "fst (extractArchive wd pre absDst t fs) = None"
    and "\<forall>a. filepath_Abs wd (filepath_Join [absDst, Name h]) = Some a \<longrightarrow>
              a \<noteq> absDst \<and> \<not> prefix (absDst @ ''/'') a"
  shows "extractArchive wd (pre @ Entry h tr # post) absDst t fs =
           (Some (if MaxFileSize < Size h then ErrFileTooLarge (Name h)
                  else ErrUnsafePath (Name h)),
            snd (extractArchive wd pre absDst t fs))"
proof -
  have "\<not> isPathSafe wd (filepath_Join [absDst, Name h]) absDst"
    using assms(2) by (auto simp: isPathSafe_def split: option.splits)
  with assms(1) show ?thesis
    by (simp add: extractArchive_reached)
qed

theorem unsafe_entry_rejected_witness:
  "fst (extractArchive None [Entry ex_dir ([], EOF)] ''/R'' 0 ex_fs) = None
   \<and> filepath_Abs None (filepath_Join [''/R'', Name ex_escape]) = Some ''/escape.txt''
   \<and> ''/escape.txt'' \<noteq> ''/R'' \<and> \<not> prefix (''/R'' @ ''/'') ''/escape.txt''
   \<and> extractArchive None
        ([Entry ex_dir ([], EOF)] @ Entry ex_escape ([(''hello'', WriteOK)], EOF)
           # [Entry ex_file ([(''hi'', WriteOK)], EOF)]) ''/R'' 0 ex_fs =
       (Some (ErrUnsafePath ''../escape.txt''),
        snd (extractArchive None [Entry ex_dir ([], EOF)] ''/R'' 0 ex_fs))"
proof -
  have 1: "fst (extractArchive None [Entry ex_dir ([], EOF)] ''/R'' 0 ex_fs) = None"
    by code_simp
  have a: "filepath_Abs None (filepath_Join [''/R'', Name ex_escape]) = Some ''/escape.txt''"
    by code_simp
  then have 2: "\<forall>a. filepath_Abs None (filepath_Join [''/R'', Name ex_escape]) = Some a \<longrightarrow>
          a \<noteq> ''/R'' \<and> \<not> prefix (''/R'' @ ''/'') a"
    by simp
  have 3: "Name ex_escape = ''../escape.txt''" "\<not> MaxFileSize < Size ex_escape"
    by (simp_all add: ex_escape_def MaxFileSize_def)
  show ?thesis
    using unsafe_entry_rejected
      [OF 1 2, of "([(''hello'', WriteOK)], EOF)" "[Entry ex_file ([(''hi'', WriteOK)], EOF)]"]
      1 a 3
    by simp
qed

text \<open>
  The claim as stated fails where the pre-check fires first: the entry \<open>../escape.txt\<close>
  with a declared size above the limit resolves to \<open>/escape.txt\<close>, outside the root
  \<open>/R\<close>, and the extraction ends with the size error, not with the unsafe-path error.
\<close>

theorem unsafe_entry_counterexample:
  "filepath_Abs None (filepath_Join [''/R'', Name (ex_escape\<lparr>Size := MaxFileSize + 1\<rparr>)]) =
     Some ''/escape.txt''
   \<and> ''/escape.txt'' \<noteq> ''/R'' \<and> \<not> prefix (''/R'' @ ''/'') ''/escape.txt''
   \<and> fst (extractArchive None [Entry (ex_escape\<lparr>Size := MaxFileSize + 1\<rparr>) ([], EOF)]
            ''/R'' 0 ex_fs) = Some (ErrFileTooLarge ''../escape.txt'')
   \<and> fst (extractArchive None [Entry (ex_escape\<lparr>Size := MaxFileSize + 1\<rparr>) ([], EOF)]
            ''/R'' 0 ex_fs) \<noteq> Some (ErrUnsafePath ''../escape.txt'')"
  by code_simp

subsection \<open>Link entries\<close>

text \<open>
  Claim C2 (amended). A symbolic-link or hard-link entry that is reached ends the
  extraction: with the link error when its declared size is within \<open>MaxFileSize\<close> and
  its path is safe, and with the size error or the unsafe-path error of the two earlier
  checks otherwise. In every case the running total and the file system are those the
  entries before it left, so no file system object is created for the link entry.
\<close>

theorem link_entry_rejected:
  assumes "fst (extractArchive wd pre absDst t fs) = None"
    and "Typeflag h = TypeSymlink \<or> Typeflag h = TypeLink"
  shows "extractArchive wd (pre @ Entry h tr # post) absDst t fs =
           (Some (if MaxFileSize < Size h then ErrFileTooLarge (Name h)
                  else if \<not> isPathSafe wd (filepath_Join [absDst, Name h]) absDst
                  then ErrUnsafePath (Name h)
                  else ErrLinkNotAllowed (Name h)),
            snd (extractArchive wd pre absDst t fs))"
  using assms by (auto simp: extractArchive_reached processEntry_def)

theorem link_entry_rejected_witness:
  "fst (extractArchive None [Entry ex_dir ([], EOF)] ''/R'' 0 ex_fs) = None
   \<and> (Typeflag ex_symlink = TypeSymlink \<or> Typeflag ex_symlink = TypeLink)
   \<and> extractArchive None
        ([Entry ex_dir ([], EOF)] @ Entry ex_symlink ([], EOF)
           # [Entry ex_file ([(''hi'', WriteOK)], EOF)]) ''/R'' 0 ex_fs =
       (Some (ErrLinkNotAllowed ''evil''),
        snd (extractArchive None [Entry ex_dir ([], EOF)] ''/R'' 0 ex_fs))
   \<and> snd (snd (extractArchive None [Entry ex_dir ([], EOF)] ''/R'' 0 ex_fs)) [''R'', ''evil'']
       = None"
proof -
  have 1: "fst (extractArchive None [Entry ex_dir ([], EOF)] ''/R'' 0 ex_fs) = None"
    by code_simp
  have 2: "Typeflag ex_symlink = TypeSymlink \<or> Typeflag ex_symlink = TypeLink"
    by (simp add: ex_symlink_def)
  have 3: "Name ex_symlink = ''evil''" "\<not> MaxFileSize < Size ex_symlink"
    by (simp_all add: ex_symlink_def MaxFileSize_def)
  have 4: "isPathSafe None (filepath_Join [''/R'', Name ex_symlink]) ''/R''"
    by code_simp
  have 5: "snd (snd (extractArchive None [Entry ex_dir ([], EOF)] ''/R'' 0 ex_fs))
             [''R'', ''evil''] = None"
    by code_simp
  show ?thesis
    using link_entry_rejected
      [OF 1 2, of "([], EOF)" "[Entry ex_file ([(''hi'', WriteOK)], EOF)]"] 1 2 3 4 5
    by simp
qed

text \<open>
  The claim as stated fails where an earlier check fires: the symbolic link \<open>../evil\<close>
  is rejected for its path, not for being a link.
\<close>

theorem link_entry_counterexample:
  "Typeflag (ex_symlink\<lparr>Name := ''../evil''\<rparr>) = TypeSymlink
   \<and> fst (extractArchive None [Entry (ex_symlink\<lparr>Name := ''../evil''\<rparr>) ([], EOF)]
            ''/R'' 0 ex_fs) = Some (ErrUnsafePath ''../evil'')
   \<and> fst (extractArchive None [Entry (ex_symlink\<lparr>Name := ''../evil''\<rparr>) ([], EOF)]
            ''/R'' 0 ex_fs) \<noteq> Some (ErrLinkNotAllowed ''../evil'')"
  by code_simp

subsection \<open>Arithmetic, the tracking writer and the copy loop\<close>

lemma i64_id: "- (2 ^ 63) \<le> x \<Longrightarrow> x < 2 ^ 63 \<Longrightarrow> i64 x = x"
  by (simp add: i64_def)

lemma file_Write_bounds:
  "file_Write fs f p w = (n, err, fs') \<Longrightarrow> 0 \<le> n \<and> n \<le> int (length p)"
  by (auto simp: file_Write_def split: option.splits node.splits wout.splits)

lemma Write_bounds:
  "trackingWriter_Write tw p w fs = (n, e, tw', fs') \<Longrightarrow> 0 \<le> n \<and> n \<le> int (length p)"
  by (auto simp: trackingWriter_Write_def split: option.splits prod.splits
           dest: file_Write_bounds)

lemma validateTotalSize_exact:
  assumes "0 \<le> c" "c \<le> MaxTotalSize" "0 \<le> a" "a \<le> 2 ^ 62"
  shows "validateTotalSize c a = (if MaxTotalSize < c + a then Some ErrTotalSize else None)"
proof -
  have "c + a < 2 ^ 63" using assms by (simp add: MaxTotalSize_def)
  moreover have "- (2 ^ 63) \<le> c + a" using assms by simp
  ultimately have "i64 (c + a) = c + a" by (rule i64_id[rotated])
  then show ?thesis by (simp add: validateTotalSize_def)
qed

lemma tw_inv_sum: "tw_inv tw \<Longrightarrow> i64 (currentTotal tw + written tw) = currentTotal tw + written tw"
  by (rule i64_id) (simp_all add: tw_inv_def MaxTotalSize_def)

lemma Write_rejects:
  assumes "tw_inv tw" "int (length p) \<le> 2 ^ 62"
    and "MaxTotalSize < currentTotal tw + written tw + int (length p)"
  shows "trackingWriter_Write tw p w fs = (0, Some ErrTotalSize, tw, fs)"
  using assms
  by (simp add: trackingWriter_Write_def tw_inv_sum validateTotalSize_exact tw_inv_def)

lemma Write_accepts:
  assumes "tw_inv tw" "int (length p) \<le> 2 ^ 62"
    and "currentTotal tw + written tw + int (length p) \<le> MaxTotalSize"
  shows "trackingWriter_Write tw p w fs =
           (case file_Write fs (writer tw) p w of
              (n, err, fs') \<Rightarrow> (n, map_option ErrOS err, tw\<lparr>written := written tw + n\<rparr>, fs'))"
proof (cases "file_Write fs (writer tw) p w")
  case (fields n err fs')
  then have n: "0 \<le> n" "n \<le> int (length p)"
    using file_Write_bounds by blast+
  have "i64 (written tw + n) = written tw + n"
    using assms n by (intro i64_id) (simp_all add: tw_inv_def MaxTotalSize_def)
  with assms fields show ?thesis
    by (simp add: trackingWriter_Write_def tw_inv_sum validateTotalSize_exact tw_inv_def)
qed

lemma Write_inv:
  assumes "tw_inv tw" "int (length p) \<le> 2 ^ 62"
    and "trackingWriter_Write tw p w fs = (n, e, tw', fs')"
  shows "tw_inv tw' \<and> currentTotal tw' = currentTotal tw \<and> writer tw' = writer tw
         \<and> written tw' = written tw + n"
proof (cases "MaxTotalSize < currentTotal tw + written tw + int (length p)")
  case True
  with assms show ?thesis by (simp add: Write_rejects)
next
  case False
  obtain k err fs2 where fw: "file_Write fs (writer tw) p w = (k, err, fs2)"
    by (cases "file_Write fs (writer tw) p w") auto
  then have "0 \<le> k" "k \<le> int (length p)"
    using file_Write_bounds by blast+
  with assms False fw show ?thesis
    by (auto simp: Write_accepts tw_inv_def)
qed


lemma file_Write_frame:
  assumes "file_Write fs f p w = (n, err, fs')"
  shows "(\<forall>q. q \<noteq> resolve f \<longrightarrow> fs' q = fs q)
         \<and> (is_file (fs (resolve f)) \<longrightarrow> is_file (fs' (resolve f)))"
  using assms
  by (auto simp: file_Write_def is_file_def split: option.splits node.splits wout.splits)

lemma Write_frame:
  assumes "trackingWriter_Write tw p w fs = (n, e, tw', fs')"
  shows "(\<forall>q. q \<noteq> resolve (writer tw) \<longrightarrow> fs' q = fs q)
         \<and> (is_file (fs (resolve (writer tw))) \<longrightarrow> is_file (fs' (resolve (writer tw))))
         \<and> writer tw' = writer tw"
  using assms
  by (auto simp: trackingWriter_Write_def split: option.splits prod.splits
           dest!: file_Write_frame)

lemma io_Copy_frame:
  assumes "io_Copy tw cs r n fs = (n', e, tw', fs')"
  shows "(\<forall>q. q \<noteq> resolve (writer tw) \<longrightarrow> fs' q = fs q)
         \<and> (is_file (fs (resolve (writer tw))) \<longrightarrow> is_file (fs' (resolve (writer tw))))
         \<and> writer tw' = writer tw"
  using assms
proof (induction tw cs r n fs rule: io_Copy.induct)
  case (1 tw r n fs)
  then show ?case by simp
next
  case (2 tw p w rest r n fs)
  show ?case
  proof (cases "p = []")
    case True
    with 2 show ?thesis by simp
  next
    case False
    obtain nw ew tw1 fs1 where W: "trackingWriter_Write tw p w fs = (nw, ew, tw1, fs1)"
      by (cases "trackingWriter_Write tw p w fs") auto
    note F = Write_frame[OF W]
    show ?thesis
    proof (cases "nw < 0 \<or> int (length p) < nw \<or> ew \<noteq> None \<or> int (length p) \<noteq> nw")
      case True
      with 2(3) False W F show ?thesis
        by (auto split: if_splits)
    next
      case stop: False
      with 2(3) False W have "io_Copy tw1 rest r (i64 (n + nw)) fs1 = (n', e, tw', fs')"
        by simp
      from 2(2)[OF False W[symmetric] refl refl _ _ _ this] stop F show ?thesis
        by auto
    qed
  qed
qed

lemma io_Copy_inv:
  assumes "io_Copy tw cs r (written tw) fs = (n', e, tw', fs')"
    and "tw_inv tw" and "chunks_fit cs"
  shows "tw_inv tw' \<and> currentTotal tw' = currentTotal tw \<and> n' = written tw'
         \<and> written tw \<le> written tw'"
  using assms
proof (induction cs arbitrary: tw fs)
  case Nil
  then show ?case by auto
next
  case (Cons c rest)
  obtain p w where c: "c = (p, w)" by (cases c)
  have fit: "int (length p) \<le> 2 ^ 62" "chunks_fit rest"
    using Cons.prems(3) c by (simp_all add: chunks_fit_def)
  show ?case
  proof (cases "p = []")
    case True
    with Cons.prems(1) c have "io_Copy tw rest r (written tw) fs = (n', e, tw', fs')"
      by simp
    from Cons.IH[OF this Cons.prems(2) fit(2)] show ?thesis .
  next
    case False
    obtain nw ew tw1 fs1 where W: "trackingWriter_Write tw p w fs = (nw, ew, tw1, fs1)"
      by (cases "trackingWriter_Write tw p w fs") auto
    note I = Write_inv[OF Cons.prems(2) fit(1) W]
    note B = Write_bounds[OF W]
    have nn: "i64 (written tw + nw) = written tw1"
      using I B by (simp add: i64_id tw_inv_def MaxTotalSize_def)
    show ?thesis
    proof (cases "ew \<noteq> None \<or> int (length p) \<noteq> nw")
      case True
      with Cons.prems(1) c False W I B nn show ?thesis
        by (auto split: if_splits)
    next
      case stop: False
      with Cons.prems(1) c False W B nn
      have "io_Copy tw1 rest r (written tw1) fs1 = (n', e, tw', fs')"
        by simp
      from Cons.IH[OF this _ fit(2)] I B show ?thesis
        by auto
    qed
  qed
qed


lemma chunks_fit_Cons [simp]:
  "chunks_fit ((p, w) # cs) \<longleftrightarrow> int (length p) \<le> 32 * 1024 \<and> chunks_fit cs"
  by (simp add: chunks_fit_def)

lemma chunk_len_Nil [simp]: "chunk_len [] = 0"
  by (simp add: chunk_len_def chunk_bytes_def)

lemma chunk_len_Cons [simp]: "chunk_len ((p, w) # cs) = int (length p) + chunk_len cs"
  by (simp add: chunk_len_def chunk_bytes_def)

lemma chunk_bytes_Nil [simp]: "chunk_bytes [] = []"
  by (simp add: chunk_bytes_def)

lemma chunk_bytes_Cons [simp]: "chunk_bytes ((p, w) # cs) = p @ chunk_bytes cs"
  by (simp add: chunk_bytes_def)

lemma chunk_len_nonneg: "0 \<le> chunk_len cs"
  by (simp add: chunk_len_def)

lemma io_Copy_crossing:
  assumes "tw_inv tw"
    and "fs (resolve (writer tw)) = Some (File m c)"
    and "list_all (\<lambda>(q, w). w = WriteOK) pre"
    and "currentTotal tw + written tw + chunk_len pre \<le> MaxTotalSize"
    and "MaxTotalSize < currentTotal tw + written tw + chunk_len pre + int (length p)"
    and "p \<noteq> []" and "int (length p) \<le> 32 * 1024"
  shows "io_Copy tw (pre @ (p, w) # rest) r (written tw) fs =
           (written tw + chunk_len pre, Some ErrTotalSize,
            tw\<lparr>written := written tw + chunk_len pre\<rparr>,
            fs(resolve (writer tw) \<mapsto> File m (c @ chunk_bytes pre)))"
  using assms(1-5)
proof (induction pre arbitrary: tw fs c)
  case Nil
  have "trackingWriter_Write tw p w fs = (0, Some ErrTotalSize, tw, fs)"
    using Nil assms(7) by (intro Write_rejects) simp_all
  moreover have "i64 (written tw) = written tw"
    using Nil(1) by (intro i64_id) (simp_all add: tw_inv_def MaxTotalSize_def)
  moreover have "fs(resolve (writer tw) \<mapsto> File m c) = fs"
    using Nil(2) by (simp add: map_upd_triv)
  ultimately show ?case
    using assms(6) by simp
next
  case (Cons a pre)
  obtain q wq where a: "a = (q, wq)" by (cases a)
  with Cons.prems(3) have wq: "wq = WriteOK" and ok: "list_all (\<lambda>(q, w). w = WriteOK) pre"
    by simp_all
  have len: "0 \<le> chunk_len pre"
    by (rule chunk_len_nonneg)
  show ?case
  proof (cases "q = []")
    case True
    with Cons.prems a have
      "io_Copy tw (pre @ (p, w) # rest) r (written tw) fs =
         (written tw + chunk_len pre, Some ErrTotalSize,
          tw\<lparr>written := written tw + chunk_len pre\<rparr>,
          fs(resolve (writer tw) \<mapsto> File m (c @ chunk_bytes pre)))"
      by (intro Cons.IH ok) simp_all
    moreover have "io_Copy tw ((a # pre) @ (p, w) # rest) r (written tw) fs =
        io_Copy tw (pre @ (p, w) # rest) r (written tw) fs"
      using True a by simp
    moreover have "chunk_len (a # pre) = chunk_len pre" "chunk_bytes (a # pre) = chunk_bytes pre"
      using True a by simp_all
    ultimately show ?thesis by (simp only:)
  next
    case False
    let ?tw1 = "tw\<lparr>written := written tw + int (length q)\<rparr>"
    let ?fs1 = "fs(resolve (writer tw) \<mapsto> File m (c @ q))"
    have small: "int (length q) \<le> 2 ^ 62"
      using Cons.prems(1,4) a len by (simp add: tw_inv_def MaxTotalSize_def)
    have fits: "currentTotal tw + written tw + int (length q) \<le> MaxTotalSize"
      using Cons.prems(4) a len by simp
    have W: "trackingWriter_Write tw q wq fs = (int (length q), None, ?tw1, ?fs1)"
      using Cons.prems(1,2) small fits wq
      by (simp add: Write_accepts file_Write_def)
    have inv1: "tw_inv ?tw1"
      using Cons.prems(1) fits by (simp add: tw_inv_def)
    have cnt: "i64 (written tw + int (length q)) = written ?tw1"
      using Cons.prems(1) fits
      by (simp add: i64_id tw_inv_def MaxTotalSize_def)
    have "io_Copy ?tw1 (pre @ (p, w) # rest) r (written ?tw1) ?fs1 =
         (written ?tw1 + chunk_len pre, Some ErrTotalSize,
          ?tw1\<lparr>written := written ?tw1 + chunk_len pre\<rparr>,
          ?fs1(resolve (writer ?tw1) \<mapsto> File m ((c @ q) @ chunk_bytes pre)))"
      using Cons.prems a inv1 by (intro Cons.IH ok) simp_all
    moreover have "io_Copy tw ((a # pre) @ (p, w) # rest) r (written tw) fs =
        io_Copy ?tw1 (pre @ (p, w) # rest) r (written ?tw1) ?fs1"
      using False a W cnt by simp
    moreover have "chunk_len (a # pre) = int (length q) + chunk_len pre"
      "chunk_bytes (a # pre) = q @ chunk_bytes pre"
      using a by simp_all
    moreover have "?tw1\<lparr>written := written ?tw1 + chunk_len pre\<rparr> =
        tw\<lparr>written := written tw + (int (length q) + chunk_len pre)\<rparr>"
      by (simp add: add.assoc)
    moreover have "?fs1(resolve (writer ?tw1) \<mapsto> File m ((c @ q) @ chunk_bytes pre)) =
        fs(resolve (writer tw) \<mapsto> File m (c @ q @ chunk_bytes pre))"
      by simp
    moreover have "written ?tw1 + chunk_len pre = written tw + (int (length q) + chunk_len pre)"
      by simp
    ultimately show ?thesis by (simp only:)
  qed
qed


text \<open>A copy that ends without error has written every chunk in full.\<close>

lemma io_Copy_count:
  assumes "io_Copy tw cs r (written tw) fs = (n, None, tw', fs')"
    and "tw_inv tw" and "chunks_fit cs"
  shows "n = written tw + chunk_len cs"
  using assms
proof (induction cs arbitrary: tw fs)
  case Nil
  then show ?case by (auto split: rend.splits)
next
  case (Cons c rest)
  obtain p w where c: "c = (p, w)" by (cases c)
  have fit: "int (length p) \<le> 2 ^ 62" "chunks_fit rest"
    using Cons.prems(3) c by (simp_all add: chunks_fit_def)
  show ?case
  proof (cases "p = []")
    case True
    with Cons.prems(1) c have "io_Copy tw rest r (written tw) fs = (n, None, tw', fs')"
      by simp
    from Cons.IH[OF this Cons.prems(2) fit(2)] True c show ?thesis by simp
  next
    case False
    obtain nw ew tw1 fs1 where W: "trackingWriter_Write tw p w fs = (nw, ew, tw1, fs1)"
      by (cases "trackingWriter_Write tw p w fs") auto
    note I = Write_inv[OF Cons.prems(2) fit(1) W]
    note B = Write_bounds[OF W]
    have nn: "i64 (written tw + nw) = written tw1"
      using I B by (simp add: i64_id tw_inv_def MaxTotalSize_def)
    from Cons.prems(1) c False W B have full: "ew = None" "nw = int (length p)"
      by (auto split: if_splits)
    with Cons.prems(1) c False W B nn
    have "io_Copy tw1 rest r (written tw1) fs1 = (n, None, tw', fs')"
      by simp
    from Cons.IH[OF this _ fit(2)] I full c show ?thesis
      by simp
  qed
qed

text \<open>A copy that ends with the total-size error was offered more than fits.\<close>

lemma io_Copy_total_error:
  assumes "io_Copy tw cs r (written tw) fs = (n, Some ErrTotalSize, tw', fs')"
    and "tw_inv tw" and "chunks_fit cs"
  shows "MaxTotalSize < currentTotal tw + written tw + chunk_len cs"
  using assms
proof (induction cs arbitrary: tw fs)
  case Nil
  then show ?case by (auto split: rend.splits)
next
  case (Cons c rest)
  obtain p w where c: "c = (p, w)" by (cases c)
  have fit: "int (length p) \<le> 2 ^ 62" "chunks_fit rest"
    using Cons.prems(3) c by (simp_all add: chunks_fit_def)
  have len: "0 \<le> chunk_len rest" by (rule chunk_len_nonneg)
  show ?case
  proof (cases "p = []")
    case True
    with Cons.prems(1) c
    have "io_Copy tw rest r (written tw) fs = (n, Some ErrTotalSize, tw', fs')"
      by simp
    from Cons.IH[OF this Cons.prems(2) fit(2)] True c show ?thesis by simp
  next
    case False
    show ?thesis
    proof (cases "MaxTotalSize < currentTotal tw + written tw + int (length p)")
      case True
      with len c show ?thesis by simp
    next
      case fits: False
      obtain k err fs1 where fw: "file_Write fs (writer tw) p w = (k, err, fs1)"
        by (cases "file_Write fs (writer tw) p w") auto
      let ?tw1 = "tw\<lparr>written := written tw + k\<rparr>"
      from fits fw have W: "trackingWriter_Write tw p w fs = (k, map_option ErrOS err, ?tw1, fs1)"
        using Write_accepts[OF Cons.prems(2) fit(1), of w fs] by simp
      note I = Write_inv[OF Cons.prems(2) fit(1) W]
      note B = Write_bounds[OF W]
      have nn: "i64 (written tw + k) = written ?tw1"
        using I B by (simp add: i64_id tw_inv_def MaxTotalSize_def)
      have noerr: "map_option ErrOS err \<noteq> Some ErrTotalSize"
        by (cases err) simp_all
      from Cons.prems(1) c False W B noerr have full: "err = None" "k = int (length p)"
        by (auto split: if_splits)
      with Cons.prems(1) c False W B nn
      have "io_Copy ?tw1 rest r (written ?tw1) fs1 = (n, Some ErrTotalSize, tw', fs')"
        by simp
      from Cons.IH[OF this _ fit(2)] I full c show ?thesis
        by simp
    qed
  qed
qed



subsection \<open>The file system\<close>

lemma lookup_Inr: "lookup fs d es = Inr n \<Longrightarrow> fs (d @ es) = Some n"
proof (induction es arbitrary: d)
  case Nil
  then show ?case by (auto split: option.splits)
next
  case (Cons e es)
  from Cons.prems have "lookup fs (d @ [e]) es = Inr n"
    by (auto split: option.splits node.splits if_splits)
  from Cons.IH[OF this] show ?case by simp
qed

lemma os_Stat_Some: "os_Stat fs p = Some n \<Longrightarrow> fs (resolve p) = Some n"
  by (auto simp: os_Stat_def Let_def split: if_splits sum.splits dest: lookup_Inr)

lemma os_Stat_absent: "fs (resolve p) = None \<Longrightarrow> os_Stat fs p = None"
  by (cases "os_Stat fs p") (auto dest: os_Stat_Some)

lemma lookup_ok:
  assumes "\<forall>x. strict_prefix x es \<longrightarrow> (\<exists>m. fs (d @ x) = Some (Dir m) \<and> may_search m)"
    and "\<forall>e \<in> set es. length e \<le> NAME_MAX"
    and "fs (d @ es) = Some n"
  shows "lookup fs d es = Inr n"
  using assms
proof (induction es arbitrary: d)
  case Nil
  then show ?case by simp
next
  case (Cons e es)
  from Cons.prems(1) have "\<exists>m. fs (d @ []) = Some (Dir m) \<and> may_search m"
    by (intro Cons.prems(1)[rule_format]) simp
  then obtain m where m: "fs d = Some (Dir m)" "may_search m" by auto
  have "lookup fs (d @ [e]) es = Inr n"
  proof (rule Cons.IH)
    show "\<forall>x. strict_prefix x es \<longrightarrow> (\<exists>m. fs ((d @ [e]) @ x) = Some (Dir m) \<and> may_search m)"
    proof (intro allI impI)
      fix x assume "strict_prefix x es"
      then have "strict_prefix (e # x) (e # es)" by simp
      from Cons.prems(1)[rule_format, OF this]
      show "\<exists>m. fs ((d @ [e]) @ x) = Some (Dir m) \<and> may_search m" by simp
    qed
    show "\<forall>e \<in> set es. length e \<le> NAME_MAX" using Cons.prems(2) by simp
    show "fs ((d @ [e]) @ es) = Some n" using Cons.prems(3) by simp
  qed
  with m Cons.prems(2) show ?case by simp
qed

lemma path_len_append [simp]: "path_len (a @ b) = path_len a + path_len b"
  by (simp add: path_len_def)

lemma path_len_Cons [simp]: "path_len (e # es) = Suc (length e) + path_len es"
  by (simp add: path_len_def)

lemma path_len_Nil [simp]: "path_len [] = 0"
  by (simp add: path_len_def)

lemma path_len_pos: "es \<noteq> [] \<Longrightarrow> 0 < path_len es"
  by (cases es) simp_all

lemma between_Cons:
  "prefix d x \<and> prefix x (d @ e # es) \<longleftrightarrow> x = d \<or> (prefix (d @ [e]) x \<and> prefix x ((d @ [e]) @ es))"
proof
  assume a: "prefix d x \<and> prefix x (d @ e # es)"
  then obtain y where y: "x = d @ y" by (auto simp: prefix_def)
  with a have "prefix y (e # es)" by simp
  then show "x = d \<or> (prefix (d @ [e]) x \<and> prefix x ((d @ [e]) @ es))"
    using y by (cases y) (auto simp: prefix_Cons)
next
  assume "x = d \<or> (prefix (d @ [e]) x \<and> prefix x ((d @ [e]) @ es))"
  then show "prefix d x \<and> prefix x (d @ e # es)"
    by (auto dest: append_prefixD)
qed

lemma walk_eq_same:
  assumes "fs d \<noteq> None"
  shows "(\<lambda>x. if prefix (d @ [e]) x \<and> prefix x ((d @ [e]) @ es) \<and> fs x = None
              then Some (Dir pm) else fs x) =
         (\<lambda>x. if prefix d x \<and> prefix x (d @ e # es) \<and> fs x = None then Some (Dir pm) else fs x)"
proof (rule ext)
  fix x
  note B = between_Cons[of d x e es]
  show "(if prefix (d @ [e]) x \<and> prefix x ((d @ [e]) @ es) \<and> fs x = None
         then Some (Dir pm) else fs x) =
        (if prefix d x \<and> prefix x (d @ e # es) \<and> fs x = None then Some (Dir pm) else fs x)"
  proof (cases "x = d")
    case True
    with assms show ?thesis by auto
  next
    case False
    with B show ?thesis by auto
  qed
qed

lemma walk_eq_new:
  assumes "fs d \<noteq> None" and "fs (d @ [e]) = None"
  shows "(\<lambda>x. if prefix (d @ [e]) x \<and> prefix x ((d @ [e]) @ es)
                  \<and> (fs(d @ [e] \<mapsto> Dir pm)) x = None
              then Some (Dir pm) else (fs(d @ [e] \<mapsto> Dir pm)) x) =
         (\<lambda>x. if prefix d x \<and> prefix x (d @ e # es) \<and> fs x = None then Some (Dir pm) else fs x)"
proof (rule ext)
  fix x
  note B = between_Cons[of d x e es]
  show "(if prefix (d @ [e]) x \<and> prefix x ((d @ [e]) @ es)
            \<and> (fs(d @ [e] \<mapsto> Dir pm)) x = None
         then Some (Dir pm) else (fs(d @ [e] \<mapsto> Dir pm)) x) =
        (if prefix d x \<and> prefix x (d @ e # es) \<and> fs x = None then Some (Dir pm) else fs x)"
  proof (cases "x = d")
    case True
    with assms show ?thesis by auto
  next
    case xd: False
    show ?thesis
    proof (cases "x = d @ [e]")
      case True
      with assms show ?thesis by simp
    next
      case False
      with B xd show ?thesis by auto
    qed
  qed
qed

text \<open>What a successful walk leaves behind.\<close>

lemma mkdir_walk_ok:
  assumes "mkdir_walk fs d es pm = (None, fs')"
  shows "fs' = (\<lambda>x. if prefix d x \<and> prefix x (d @ es) \<and> fs x = None then Some (Dir pm) else fs x)
         \<and> (\<forall>x. prefix d x \<and> prefix x (d @ es) \<longrightarrow> is_dir (fs' x))
         \<and> (\<forall>x. prefix d x \<and> strict_prefix x (d @ es) \<longrightarrow>
                (\<exists>m. fs' x = Some (Dir m) \<and> may_search m))
         \<and> (\<forall>e \<in> set es. length e \<le> NAME_MAX)
         \<and> (es \<noteq> [] \<longrightarrow> path_len (d @ es) < PATH_MAX)"
  using assms
proof (induction es arbitrary: d fs)
  case Nil
  then have dd: "is_dir (fs d)" and eq: "fs' = fs"
    by (auto simp: is_dir_def split: option.splits node.splits)
  have xd: "x = d" if "prefix d x \<and> prefix x d" for x
    using that by (simp add: prefix_order.antisym)
  have 1: "fs' = (\<lambda>x. if prefix d x \<and> prefix x (d @ []) \<and> fs x = None then Some (Dir pm)
                       else fs x)"
  proof (rule ext)
    fix x
    show "fs' x = (if prefix d x \<and> prefix x (d @ []) \<and> fs x = None then Some (Dir pm)
                   else fs x)"
      using xd[of x] dd eq by (auto simp: is_dir_def split: option.splits)
  qed
  have 2: "\<forall>x. prefix d x \<and> prefix x (d @ []) \<longrightarrow> is_dir (fs' x)"
    using xd dd eq by auto
  have 3: "\<forall>x. prefix d x \<and> strict_prefix x (d @ []) \<longrightarrow>
              (\<exists>m. fs' x = Some (Dir m) \<and> may_search m)"
    using xd by (auto simp: strict_prefix_def)
  show ?case
    using 1 2 3 by simp
next
  case (Cons e es)
  from Cons.prems obtain m where m: "fs d = Some (Dir m)" "may_search m"
    and nm: "length e \<le> NAME_MAX"
    and pl: "path_len (d @ [e]) + (if es = [] then 0 else 1) < PATH_MAX"
    by (auto split: if_splits option.splits node.splits)
  let ?d = "d @ [e]"
  show ?case
  proof (cases "fs ?d")
    case None
    let ?fs1 = "fs(?d \<mapsto> Dir pm)"
    from Cons.prems m nm pl None have w: "mkdir_walk ?fs1 ?d es pm = (None, fs')"
      by (auto split: if_splits)
    note IH = Cons.IH[OF w]
    have d1: "?fs1 d = fs d" by simp
    have 1: "fs' = (\<lambda>x. if prefix d x \<and> prefix x (d @ e # es) \<and> fs x = None
                         then Some (Dir pm) else fs x)"
      using IH[THEN conjunct1] walk_eq_new[of fs d e es pm] m None by simp
    have keepd: "fs' d = fs d"
      using 1 m by simp
    have 2: "\<forall>x. prefix d x \<and> prefix x (d @ e # es) \<longrightarrow> is_dir (fs' x)"
      using IH[THEN conjunct2, THEN conjunct1] keepd m
      by (auto simp: between_Cons is_dir_def)
    have 3: "\<forall>x. prefix d x \<and> strict_prefix x (d @ e # es) \<longrightarrow>
                (\<exists>m. fs' x = Some (Dir m) \<and> may_search m)"
    proof (intro allI impI)
      fix x assume a: "prefix d x \<and> strict_prefix x (d @ e # es)"
      then have "prefix d x \<and> prefix x (d @ e # es)" by (simp add: strict_prefix_def)
      then consider "x = d" | "prefix ?d x \<and> prefix x (?d @ es)"
        by (auto simp: between_Cons)
      then show "\<exists>m. fs' x = Some (Dir m) \<and> may_search m"
      proof cases
        case 1
        with keepd m show ?thesis by simp
      next
        case 2
        with a have "prefix ?d x \<and> strict_prefix x (?d @ es)"
          by (simp add: strict_prefix_def)
        with IH[THEN conjunct2, THEN conjunct2, THEN conjunct1] show ?thesis by blast
      qed
    qed
    from IH nm pl have 4: "\<forall>e \<in> set (e # es). length e \<le> NAME_MAX"
      by simp
    from IH have "es \<noteq> [] \<longrightarrow> path_len (?d @ es) < PATH_MAX" by blast
    then have 5: "e # es \<noteq> [] \<longrightarrow> path_len (d @ e # es) < PATH_MAX"
      using pl by (cases "es = []") simp_all
    from 1 2 3 4 5 show ?thesis by blast
  next
    case (Some nd)
    with Cons.prems m nm pl obtain m' where nd: "nd = Dir m'"
      by (cases nd) (auto split: if_splits)
    with Cons.prems m nm pl Some have w: "mkdir_walk fs ?d es pm = (None, fs')"
      by (auto split: if_splits)
    note IH = Cons.IH[OF w]
    have 1: "fs' = (\<lambda>x. if prefix d x \<and> prefix x (d @ e # es) \<and> fs x = None
                         then Some (Dir pm) else fs x)"
      using IH[THEN conjunct1] walk_eq_same[of fs d e es pm] m by simp
    have keepd: "fs' d = fs d"
      using 1 m by simp
    have 2: "\<forall>x. prefix d x \<and> prefix x (d @ e # es) \<longrightarrow> is_dir (fs' x)"
      using IH[THEN conjunct2, THEN conjunct1] keepd m
      by (auto simp: between_Cons is_dir_def)
    have 3: "\<forall>x. prefix d x \<and> strict_prefix x (d @ e # es) \<longrightarrow>
                (\<exists>m. fs' x = Some (Dir m) \<and> may_search m)"
    proof (intro allI impI)
      fix x assume a: "prefix d x \<and> strict_prefix x (d @ e # es)"
      then have "prefix d x \<and> prefix x (d @ e # es)" by (simp add: strict_prefix_def)
      then consider "x = d" | "prefix ?d x \<and> prefix x (?d @ es)"
        by (auto simp: between_Cons)
      then show "\<exists>m. fs' x = Some (Dir m) \<and> may_search m"
      proof cases
        case 1
        with keepd m show ?thesis by simp
      next
        case 2
        with a have "prefix ?d x \<and> strict_prefix x (?d @ es)"
          by (simp add: strict_prefix_def)
        with IH[THEN conjunct2, THEN conjunct2, THEN conjunct1] show ?thesis by blast
      qed
    qed
    from IH nm pl have 4: "\<forall>e \<in> set (e # es). length e \<le> NAME_MAX"
      by simp
    from IH have "es \<noteq> [] \<longrightarrow> path_len (?d @ es) < PATH_MAX" by blast
    then have 5: "e # es \<noteq> [] \<longrightarrow> path_len (d @ e # es) < PATH_MAX"
      using pl by (cases "es = []") simp_all
    from 1 2 3 4 5 show ?thesis by blast
  qed
qed

text \<open>What any walk leaves behind.\<close>

lemma mkdir_walk_frame:
  assumes "mkdir_walk fs d es pm = (r, fs')"
  shows "(\<forall>x. fs x \<noteq> None \<longrightarrow> fs' x = fs x)
         \<and> (\<forall>x. fs x = None \<and> fs' x \<noteq> None \<longrightarrow>
                fs' x = Some (Dir pm) \<and> strict_prefix d x \<and> prefix x (d @ es)
                \<and> (r \<noteq> None \<longrightarrow> x \<noteq> d @ es))"
  using assms
proof (induction es arbitrary: d fs)
  case Nil
  then have "fs' = fs"
    by (auto split: option.splits node.splits)
  then show ?case by (simp cong: conj_cong)
next
  case (Cons e es)
  let ?d = "d @ [e]"
  let ?fs1 = "fs(?d \<mapsto> Dir pm)"
  have sp: "strict_prefix d x \<and> prefix x (d @ e # es)"
    if "strict_prefix ?d x \<or> x = ?d" "prefix x (?d @ es)" for x
    using that by (auto simp: strict_prefix_def dest: append_prefixD)
  consider (stop) "fs' = fs"
    | (enter) "mkdir_walk fs ?d es pm = (r, fs')" "fs ?d \<noteq> None"
    | (create) "mkdir_walk ?fs1 ?d es pm = (r, fs')" "fs ?d = None"
    using Cons.prems by (auto split: if_splits option.splits node.splits)
  then show ?case
  proof cases
    case stop
    then show ?thesis by (simp cong: conj_cong)
  next
    case enter
    from Cons.IH[OF enter(1)] sp show ?thesis
      by (metis append.assoc append_Cons append_Nil)
  next
    case create
    note IH = Cons.IH[OF create(1)]
    show ?thesis
    proof (intro conjI allI impI)
      fix x assume "fs x \<noteq> None"
      with create(2) have "x \<noteq> ?d" by auto
      with IH \<open>fs x \<noteq> None\<close> show "fs' x = fs x" by simp
    next
      fix x assume a: "fs x = None \<and> fs' x \<noteq> None"
      show "fs' x = Some (Dir pm)"
      proof (cases "x = ?d")
        case True
        with IH show ?thesis by simp
      next
        case False
        with IH a show ?thesis by simp
      qed
      have in_between: "strict_prefix ?d x \<or> x = ?d" "prefix x (?d @ es)"
      proof -
        show "strict_prefix ?d x \<or> x = ?d"
        proof (cases "x = ?d")
          case False
          with IH a show ?thesis by simp
        qed simp
        show "prefix x (?d @ es)"
        proof (cases "x = ?d")
          case False
          with IH a show ?thesis by simp
        qed simp
      qed
      from sp[OF this] show "strict_prefix d x" "prefix x (d @ e # es)"
        by simp_all
      assume r: "r \<noteq> None"
      show "x \<noteq> d @ e # es"
      proof (cases "x = ?d")
        case True
        show ?thesis
        proof (cases "es = []")
          case True
          with create(1) r show ?thesis by simp
        next
          case False
          with \<open>x = ?d\<close> show ?thesis by simp
        qed
      next
        case False
        with IH a r have "x \<noteq> ?d @ es" by simp
        then show ?thesis by simp
      qed
    qed
  qed
qed

text \<open>When a walk succeeds.\<close>

lemma mkdir_walk_succeeds:
  assumes "is_dir (fs d)"
    and "\<forall>x. prefix x es \<longrightarrow> \<not> is_file (fs (d @ x))"
    and "\<forall>x e. prefix (x @ [e]) es \<longrightarrow>
           (case fs (d @ x) of
              Some (Dir m) \<Rightarrow> may_search m \<and> (fs (d @ x @ [e]) = None \<longrightarrow> may_write m)
            | _ \<Rightarrow> may_search pm \<and> may_write pm)"
    and "\<forall>e \<in> set es. length e \<le> NAME_MAX"
    and "path_len (d @ es) < PATH_MAX"
  shows "fst (mkdir_walk fs d es pm) = None"
  using assms
proof (induction es arbitrary: d fs)
  case Nil
  then show ?case by (auto simp: is_dir_def split: option.splits node.splits)
next
  case (Cons e es)
  let ?d = "d @ [e]"
  let ?fs1 = "fs(?d \<mapsto> Dir pm)"
  from Cons.prems(1) obtain m where m: "fs d = Some (Dir m)"
    by (auto simp: is_dir_def split: option.splits node.splits)
  have "prefix ([] @ [e]) (e # es)" by simp
  from Cons.prems(3)[rule_format, OF this] m
  have acc: "may_search m" "fs ?d = None \<longrightarrow> may_write m"
    by simp_all
  have nm: "length e \<le> NAME_MAX" "\<forall>e \<in> set es. length e \<le> NAME_MAX"
    using Cons.prems(4) by simp_all
  have pl: "\<not> PATH_MAX \<le> path_len ?d + (if es = [] then 0 else 1)"
    "path_len (?d @ es) < PATH_MAX"
    using Cons.prems(5) path_len_pos[of es] by (auto split: if_splits)
  have "prefix [e] (e # es)" by simp
  from Cons.prems(2)[rule_format, OF this] have nf: "\<not> is_file (fs ?d)" by simp
  have nfr: "\<not> is_file (fs (?d @ x))" if "prefix x es" for x
  proof -
    from that have "prefix (e # x) (e # es)" by simp
    from Cons.prems(2)[rule_format, OF this] show ?thesis by simp
  qed
  have accr: "case fs (?d @ x) of
              Some (Dir m) \<Rightarrow> may_search m \<and> (fs (?d @ x @ [e']) = None \<longrightarrow> may_write m)
            | _ \<Rightarrow> may_search pm \<and> may_write pm" if "prefix (x @ [e']) es" for x e'
  proof -
    from that have "prefix ((e # x) @ [e']) (e # es)" by simp
    from Cons.prems(3)[rule_format, OF this] show ?thesis
      by (simp cong: option.case_cong node.case_cong)
  qed
  show ?case
  proof (cases "fs ?d")
    case None
    have "fst (mkdir_walk ?fs1 ?d es pm) = None"
    proof (rule Cons.IH)
      show "is_dir (?fs1 ?d)" by (simp add: is_dir_def)
      show "\<forall>x. prefix x es \<longrightarrow> \<not> is_file (?fs1 (?d @ x))"
        using nfr by (auto simp: is_file_def)
      show "\<forall>x e'. prefix (x @ [e']) es \<longrightarrow>
           (case ?fs1 (?d @ x) of
              Some (Dir m) \<Rightarrow> may_search m \<and> (?fs1 (?d @ x @ [e']) = None \<longrightarrow> may_write m)
            | _ \<Rightarrow> may_search pm \<and> may_write pm)"
      proof (intro allI impI)
        fix x e' assume p: "prefix (x @ [e']) es"
        show "case ?fs1 (?d @ x) of
              Some (Dir m) \<Rightarrow> may_search m \<and> (?fs1 (?d @ x @ [e']) = None \<longrightarrow> may_write m)
            | _ \<Rightarrow> may_search pm \<and> may_write pm"
        proof (cases "x = []")
          case True
          from p True have "prefix ([e] @ [e']) (e # es)" by simp
          then have "prefix (([e]) @ [e']) (e # es)" .
          from Cons.prems(3)[rule_format, OF this] None
          have "may_search pm \<and> may_write pm" by simp
          with True show ?thesis by simp
        next
          case False
          then have "?d @ x \<noteq> ?d" "?d @ x @ [e'] \<noteq> ?d" by simp_all
          with accr[OF p] show ?thesis
            by (auto split: option.splits node.splits)
        qed
      qed
      show "\<forall>e \<in> set es. length e \<le> NAME_MAX" by (rule nm(2))
      show "path_len (?d @ es) < PATH_MAX" by (rule pl(2))
    qed
    with m acc nm(1) pl(1) None show ?thesis by simp
  next
    case (Some nd)
    with nf obtain m' where nd: "fs ?d = Some (Dir m')"
      by (cases nd) (auto simp: is_file_def)
    have "fst (mkdir_walk fs ?d es pm) = None"
    proof (rule Cons.IH)
      show "is_dir (fs ?d)" using nd by (simp add: is_dir_def)
      show "\<forall>x. prefix x es \<longrightarrow> \<not> is_file (fs (?d @ x))"
        using nfr by blast
      show "\<forall>x e'. prefix (x @ [e']) es \<longrightarrow>
           (case fs (?d @ x) of
              Some (Dir m) \<Rightarrow> may_search m \<and> (fs (?d @ x @ [e']) = None \<longrightarrow> may_write m)
            | _ \<Rightarrow> may_search pm \<and> may_write pm)"
        using accr by blast
      show "\<forall>e \<in> set es. length e \<le> NAME_MAX" by (rule nm(2))
      show "path_len (?d @ es) < PATH_MAX" by (rule pl(2))
    qed
    with m acc nm(1) pl(1) nd show ?thesis by simp
  qed
qed

text \<open>\<open>os.MkdirAll\<close>.\<close>

lemma os_MkdirAll_Inr_walk:
  "os_MkdirAll fs p pm = Inr fs' \<longleftrightarrow> mkdir_walk fs [] (resolve p) pm = (None, fs')"
  by (auto simp: os_MkdirAll_def split: prod.splits option.splits)

lemma os_MkdirAll_Inl_walk:
  "os_MkdirAll fs p pm = Inl (e, fs') \<longleftrightarrow> mkdir_walk fs [] (resolve p) pm = (Some e, fs')"
  by (auto simp: os_MkdirAll_def split: prod.splits option.splits)

lemma os_MkdirAll_Inr:
  assumes "os_MkdirAll fs p pm = Inr fs'"
  shows "fs' = (\<lambda>x. if prefix x (resolve p) \<and> fs x = None then Some (Dir pm) else fs x)"
  using mkdir_walk_ok[of fs "[]" "resolve p" pm fs'] assms
  by (simp add: os_MkdirAll_Inr_walk)

lemma os_MkdirAll_frame:
  assumes "os_MkdirAll fs p pm = Inr fs'"
  shows "(\<forall>q. fs q \<noteq> None \<longrightarrow> fs' q = fs q)
         \<and> (\<forall>q. \<not> prefix q (resolve p) \<longrightarrow> fs' q = fs q)
         \<and> (\<forall>q. prefix q (resolve p) \<longrightarrow> is_dir (fs' q))"
proof -
  from assms have w: "mkdir_walk fs [] (resolve p) pm = (None, fs')"
    by (simp add: os_MkdirAll_Inr_walk)
  from mkdir_walk_ok[OF w, THEN conjunct2, THEN conjunct1]
  have "\<forall>q. prefix q (resolve p) \<longrightarrow> is_dir (fs' q)"
    by simp
  moreover from os_MkdirAll_Inr[OF assms]
  have "\<forall>q. fs q \<noteq> None \<longrightarrow> fs' q = fs q" "\<forall>q. \<not> prefix q (resolve p) \<longrightarrow> fs' q = fs q"
    by simp_all
  ultimately show ?thesis by blast
qed

lemma os_MkdirAll_Inl_frame:
  assumes "os_MkdirAll fs p pm = Inl (e, fs')"
  shows "(\<forall>q. fs q \<noteq> None \<longrightarrow> fs' q = fs q)
         \<and> (\<forall>q. fs q = None \<and> fs' q \<noteq> None \<longrightarrow>
                fs' q = Some (Dir pm) \<and> strict_prefix q (resolve p))"
proof -
  from assms have w: "mkdir_walk fs [] (resolve p) pm = (Some e, fs')"
    by (simp add: os_MkdirAll_Inl_walk)
  from mkdir_walk_frame[OF w] show ?thesis
    by (auto simp: strict_prefix_def)
qed

lemma os_OpenFile_Inr:
  assumes "os_OpenFile fs p pm = Inr fs'"
  shows "(\<exists>m. fs' (resolve p) = Some (File m []))
         \<and> (\<forall>q. q \<noteq> resolve p \<longrightarrow> fs' q = fs q)"
  using assms
  by (auto simp: os_OpenFile_def Let_def split: if_splits option.splits node.splits sum.splits)

lemma not_file_dir: "n \<noteq> None \<Longrightarrow> \<not> is_file n \<Longrightarrow> is_dir n"
  by (auto simp: is_file_def is_dir_def split: option.splits node.splits)

lemma dir_not_file: "is_dir n \<Longrightarrow> \<not> is_file n"
  by (auto simp: is_dir_def is_file_def split: option.splits node.splits)

lemma is_dir_exists: "is_dir n \<Longrightarrow> n \<noteq> None"
  by (auto simp: is_dir_def split: option.splits)

lemma mkdir_ok_succeeds:
  assumes "mkdir_ok fs (resolve p) pm"
  shows "\<exists>fs'. os_MkdirAll fs p pm = Inr fs'"
proof -
  let ?q = "resolve p"
  have "fst (mkdir_walk fs [] ?q pm) = None"
  proof (rule mkdir_walk_succeeds)
    show "is_dir (fs [])" using assms by (simp add: mkdir_ok_def)
    show "\<forall>x. prefix x ?q \<longrightarrow> \<not> is_file (fs ([] @ x))"
      using assms by (simp add: mkdir_ok_def)
    show "\<forall>x e. prefix (x @ [e]) ?q \<longrightarrow>
           (case fs ([] @ x) of
              Some (Dir m) \<Rightarrow> may_search m \<and> (fs ([] @ x @ [e]) = None \<longrightarrow> may_write m)
            | _ \<Rightarrow> may_search pm \<and> may_write pm)"
    proof (intro allI impI)
      fix x e assume pre: "prefix (x @ [e]) ?q"
      then obtain z where z: "?q = x @ e # z" by (auto simp: prefix_def)
      then have x: "x \<in> set (prefixes ?q)" "x \<noteq> ?q"
        and tk: "take (Suc (length x)) ?q = x @ [e]"
        by (simp_all add: in_set_prefixes)
      from assms have "\<forall>x \<in> set (prefixes ?q). x \<noteq> ?q \<longrightarrow>
           (case fs x of
              Some (Dir m) \<Rightarrow>
                may_search m \<and> (fs (take (Suc (length x)) ?q) = None \<longrightarrow> may_write m)
            | _ \<Rightarrow> may_search pm \<and> may_write pm)"
        by (simp add: mkdir_ok_def)
      from this[rule_format, OF x] show "case fs ([] @ x) of
              Some (Dir m) \<Rightarrow> may_search m \<and> (fs ([] @ x @ [e]) = None \<longrightarrow> may_write m)
            | _ \<Rightarrow> may_search pm \<and> may_write pm"
        by (simp add: tk cong: option.case_cong node.case_cong)
    qed
    show "\<forall>e \<in> set ?q. length e \<le> NAME_MAX" using assms by (simp add: mkdir_ok_def)
    show "path_len ([] @ ?q) < PATH_MAX" using assms by (simp add: mkdir_ok_def)
  qed
  then show ?thesis
    by (cases "mkdir_walk fs [] ?q pm") (simp add: os_MkdirAll_def)
qed

lemma os_MkdirAll_Inr_Stat:
  assumes "os_MkdirAll fs p pm = Inr fs'"
  shows "\<exists>m. os_Stat fs' p = Some (Dir m) \<and> (fs (resolve p) = None \<longrightarrow> m = pm)"
proof -
  let ?q = "resolve p"
  from assms have w: "mkdir_walk fs [] ?q pm = (None, fs')"
    by (simp add: os_MkdirAll_Inr_walk)
  note K = mkdir_walk_ok[OF w]
  note K2 = K[THEN conjunct2, THEN conjunct1]
  note K3 = K[THEN conjunct2, THEN conjunct2, THEN conjunct1]
  note K4 = K[THEN conjunct2, THEN conjunct2, THEN conjunct2, THEN conjunct1]
  note K5 = K[THEN conjunct2, THEN conjunct2, THEN conjunct2, THEN conjunct2]
  from K2 have "is_dir (fs' ?q)" by simp
  then obtain m where m: "fs' ?q = Some (Dir m)"
    by (auto simp: is_dir_def split: option.splits node.splits)
  from K5 have pl: "path_len ?q < PATH_MAX"
    by (cases "?q = []") (simp_all add: PATH_MAX_def)
  have "lookup fs' [] ?q = Inr (Dir m)"
  proof (rule lookup_ok)
    show "\<forall>x. strict_prefix x ?q \<longrightarrow> (\<exists>m. fs' ([] @ x) = Some (Dir m) \<and> may_search m)"
      using K3 by simp
    show "\<forall>e \<in> set ?q. length e \<le> NAME_MAX" using K4 by simp
    show "fs' ([] @ ?q) = Some (Dir m)" using m by simp
  qed
  with pl have "os_Stat fs' p = Some (Dir m)"
    by (simp add: os_Stat_def)
  moreover have "m = pm" if "fs ?q = None"
    using that m os_MkdirAll_Inr[OF assms] by simp
  ultimately show ?thesis by (intro exI[of _ m]) simp
qed

lemma os_MkdirAll_Inr_conditions:
  assumes "os_MkdirAll fs p pm = Inr fs'"
  shows "(\<forall>q. prefix q (resolve p) \<longrightarrow> \<not> is_file (fs q))
         \<and> (\<forall>e \<in> set (resolve p). length e \<le> NAME_MAX)
         \<and> path_len (resolve p) < PATH_MAX"
proof -
  let ?q = "resolve p"
  from assms have w: "mkdir_walk fs [] ?q pm = (None, fs')"
    by (simp add: os_MkdirAll_Inr_walk)
  note K = mkdir_walk_ok[OF w]
  note K4 = K[THEN conjunct2, THEN conjunct2, THEN conjunct2, THEN conjunct1]
  note K5 = K[THEN conjunct2, THEN conjunct2, THEN conjunct2, THEN conjunct2]
  note F = os_MkdirAll_frame[OF assms]
  have "\<not> is_file (fs q)" if "prefix q ?q" for q
  proof
    assume f: "is_file (fs q)"
    then have "fs q \<noteq> None" by (auto simp: is_file_def split: option.splits)
    with F have "fs' q = fs q" by blast
    moreover from F that have "is_dir (fs' q)" by blast
    ultimately show False using f
      by (auto simp: is_dir_def is_file_def split: option.splits node.splits)
  qed
  moreover from K4 have "\<forall>e \<in> set ?q. length e \<le> NAME_MAX" by simp
  moreover from K5 have "path_len ?q < PATH_MAX"
    by (cases "?q = []") (simp_all add: PATH_MAX_def)
  ultimately show ?thesis by blast
qed

lemma mkdir_ok_under_root:
  assumes root: "is_dir (fs R)" and acc: "access_ok fs R"
    and pre: "prefix R q" and nf: "\<forall>x. prefix x q \<longrightarrow> \<not> is_file (fs x)"
    and nm: "\<forall>e \<in> set q. length e \<le> NAME_MAX" and pl: "path_len q < PATH_MAX"
    and pm: "may_search pm" "may_write pm"
  shows "mkdir_ok fs q pm"
proof -
  have anc: "fs x \<noteq> None \<and> is_dir (fs x)" if "prefix x R" for x
  proof (cases "x = R")
    case True
    with root show ?thesis by (simp add: is_dir_exists)
  next
    case False
    with that have "strict_prefix x R" by (simp add: strict_prefix_def)
    with acc show ?thesis by (auto simp: access_ok_def is_dir_def)
  qed
  have r0: "is_dir (fs [])"
    using anc[of "[]"] by simp
  have step: "case fs x of
              Some (Dir m) \<Rightarrow>
                may_search m \<and> (fs (take (Suc (length x)) q) = None \<longrightarrow> may_write m)
            | _ \<Rightarrow> may_search pm \<and> may_write pm"
    if x: "x \<in> set (prefixes q)" "x \<noteq> q" for x
  proof (cases "strict_prefix x R")
    case True
    with acc obtain m where m: "fs x = Some (Dir m)" "may_search m"
      by (auto simp: access_ok_def)
    from True obtain zs where zs: "R = x @ zs" "zs \<noteq> []"
      by (auto simp: strict_prefix_def prefix_def)
    then obtain e z where R: "R = x @ e # z"
      by (cases zs) auto
    from pre obtain y where q: "q = R @ y" by (auto simp: prefix_def)
    have "take (Suc (length x)) q = x @ [e]"
      by (simp add: q R)
    moreover have "prefix (x @ [e]) R"
      by (simp add: R)
    ultimately have "fs (take (Suc (length x)) q) \<noteq> None"
      using anc by simp
    with m show ?thesis by auto
  next
    case False
    from x have "prefix x q" by (simp add: in_set_prefixes)
    with pre have "prefix R x \<or> prefix x R"
      by (rule prefix_same_cases)
    with False have Rx: "prefix R x"
      by (auto simp: strict_prefix_def)
    show ?thesis
    proof (cases "fs x")
      case None
      with pm show ?thesis by simp
    next
      case (Some nd)
      show ?thesis
      proof (cases nd)
        case (Dir m)
        with Some Rx acc have "may_search m \<and> may_write m"
          by (auto simp: access_ok_def)
        with Some Dir show ?thesis by simp
      next
        case (File m c)
        with Some pm show ?thesis by simp
      qed
    qed
  qed
  from r0 pl nm nf step show ?thesis
    by (simp add: mkdir_ok_def in_set_prefixes)
qed

text \<open>Creating directories with bits that allow writing and searching keeps the access.\<close>

lemma access_ok_mkdir:
  assumes "access_ok fs R" and "may_search pm" "may_write pm"
  shows "access_ok (\<lambda>x. if prefix x q \<and> fs x = None then Some (Dir pm) else fs x) R"
  using assms by (auto simp: access_ok_def split: if_splits)

lemma access_ok_file:
  assumes "access_ok fs R" and "\<not> strict_prefix q R"
  shows "access_ok (fs(q \<mapsto> File m c)) R"
  using assms by (auto simp: access_ok_def)

lemma os_Remove_file:
  assumes "is_file (fs (resolve p))"
  shows "os_Remove fs p = fs(resolve p := None)"
  using assms
  by (auto simp: os_Remove_def Let_def is_file_def split: option.splits node.splits)

text \<open>What a call of \<open>handleRegularFile\<close> leaves behind.\<close>

lemma handleRegularFile_frame:
  assumes "handleRegularFile target h tr cur fs = (res, fs')"
  shows "(\<forall>q. q \<noteq> resolve target \<and> fs q \<noteq> None \<longrightarrow> fs' q = fs q)
         \<and> (\<forall>e. res = Inl (ErrWriteContent e) \<longrightarrow> fs' (resolve target) = None)
         \<and> (\<forall>nm n s. res = Inl (ErrSizeAnomaly nm n s) \<longrightarrow> fs' (resolve target) = None)"
proof (cases "os_MkdirAll fs (filepath_Dir target) 493")
  case (Inl r)
  obtain e fs1 where r: "r = (e, fs1)" by (cases r)
  from os_MkdirAll_Inl_frame[OF Inl[unfolded r]]
  have F: "\<forall>q. fs q \<noteq> None \<longrightarrow> fs1 q = fs q"
    by blast
  from assms Inl r have "fs' = fs1" "res = Inl (ErrParentDirectory (ErrOS e))"
    by (auto simp: handleRegularFile_def)
  with F show ?thesis by simp
next
  case mk: (Inr fs1)
  from os_MkdirAll_frame[OF mk] have F1: "\<forall>q. fs q \<noteq> None \<longrightarrow> fs1 q = fs q"
    by blast
  show ?thesis
  proof (cases "os_OpenFile fs1 target (perm_or h 420)")
    case (Inl e)
    with assms mk F1 show ?thesis
      by (auto simp: handleRegularFile_def)
  next
    case op: (Inr fs2)
    from os_OpenFile_Inr[OF op] have F2: "\<forall>q. q \<noteq> resolve target \<longrightarrow> fs2 q = fs1 q"
      and file2: "is_file (fs2 (resolve target))"
      by (auto simp: is_file_def)
    obtain n e tw fs3 where
      cp: "io_Copy \<lparr>writer = target, currentTotal = cur, written = 0\<rparr> (fst tr) (snd tr) 0 fs2
             = (n, e, tw, fs3)"
      by (cases "io_Copy \<lparr>writer = target, currentTotal = cur, written = 0\<rparr>
                   (fst tr) (snd tr) 0 fs2") auto
    from io_Copy_frame[OF cp] file2 have F3: "\<forall>q. q \<noteq> resolve target \<longrightarrow> fs3 q = fs2 q"
      and "is_file (fs3 (resolve target))"
      by simp_all
    then have rm: "os_Remove fs3 target = fs3(resolve target := None)"
      by (simp add: os_Remove_file)
    have keep: "fs3 q = fs q" if "q \<noteq> resolve target" "fs q \<noteq> None" for q
      using that F1 F2 F3 by simp
    show ?thesis
    proof (cases "e \<noteq> None \<or> i64 (Size h * 2) < n")
      case True
      with assms mk op cp rm have "fs' = fs3(resolve target := None)" "\<exists>x. res = Inl x"
        by (auto simp: handleRegularFile_def split: option.splits if_splits)
      with keep show ?thesis by auto
    next
      case False
      with assms mk op cp have "fs' = fs3" "res = Inr n"
        by (auto simp: handleRegularFile_def split: option.splits if_splits)
      with keep show ?thesis by auto
    qed
  qed
qed

lemma handleRegularFile_written:
  assumes "handleRegularFile target h tr cur fs = (Inr n, fs')"
    and "0 \<le> cur" and "cur \<le> MaxTotalSize" and "chunks_fit (fst tr)"
  shows "0 \<le> n \<and> cur + n \<le> MaxTotalSize \<and> n \<le> i64 (Size h * 2)"
proof -
  from assms(1) obtain fs2 tw fs3 where
    cp: "io_Copy \<lparr>writer = target, currentTotal = cur, written = 0\<rparr> (fst tr) (snd tr) 0 fs2
           = (n, None, tw, fs3)"
    and le: "\<not> i64 (Size h * 2) < n"
    by (auto simp: handleRegularFile_def split: sum.splits prod.splits option.splits if_splits)
  have "tw_inv \<lparr>writer = target, currentTotal = cur, written = 0\<rparr>"
    using assms(2,3) by (simp add: tw_inv_def)
  from io_Copy_inv[of "\<lparr>writer = target, currentTotal = cur, written = 0\<rparr>", simplified, OF cp this assms(4)] le
  show ?thesis
    by (simp add: tw_inv_def)
qed

lemma handleDirectory_frame:
  assumes "handleDirectory target h fs = (e, fs')"
  shows "\<forall>q. fs q \<noteq> None \<longrightarrow> fs' q = fs q"
  using assms
  by (auto simp: handleDirectory_def split: option.splits node.splits sum.splits prod.splits
           dest: os_MkdirAll_frame os_MkdirAll_Inl_frame)

lemma processEntry_total:
  assumes "processEntry h target tr t fs = (e, t', fs')"
    and "0 \<le> t" and "t \<le> MaxTotalSize" and "chunks_fit (fst tr)"
  shows "t \<le> t' \<and> t' \<le> MaxTotalSize \<and> (e \<noteq> None \<longrightarrow> t' = t)"
proof (cases "Typeflag h = TypeReg")
  case True
  obtain res fs1 where hr: "handleRegularFile target h tr t fs = (res, fs1)"
    by (cases "handleRegularFile target h tr t fs") auto
  show ?thesis
  proof (cases res)
    case (Inl err)
    with assms True hr show ?thesis by (simp add: processEntry_def)
  next
    case (Inr n)
    with hr handleRegularFile_written[OF _ assms(2-4)]
    have n: "0 \<le> n" "t + n \<le> MaxTotalSize" by blast+
    then have "i64 (t + n) = t + n"
      using assms(2) by (intro i64_id) (simp_all add: MaxTotalSize_def)
    with assms True hr Inr n show ?thesis by (simp add: processEntry_def)
  qed
next
  case False
  with assms show ?thesis
    by (auto simp: processEntry_def split: prod.splits option.splits if_splits)
qed

lemma extractArchive_total:
  assumes "extractArchive wd items absDst t fs = (e, t', fs')"
    and "0 \<le> t" and "t \<le> MaxTotalSize" and "list_all item_fits items"
  shows "t \<le> t' \<and> t' \<le> MaxTotalSize"
  using assms
proof (induction items arbitrary: t fs)
  case Nil
  then show ?case by simp
next
  case (Cons it rest)
  show ?case
  proof (cases it)
    case (Entry h tr)
    show ?thesis
    proof (cases "MaxFileSize < Size h \<or> \<not> isPathSafe wd (filepath_Join [absDst, Name h]) absDst")
      case True
      with Cons.prems Entry show ?thesis by (auto simp: Let_def split: if_splits)
    next
      case False
      obtain e1 t1 fs1 where pe:
        "processEntry h (filepath_Join [absDst, Name h]) tr t fs = (e1, t1, fs1)"
        by (cases "processEntry h (filepath_Join [absDst, Name h]) tr t fs") auto
      from Cons.prems(4) Entry have fit: "chunks_fit (fst tr)" "list_all item_fits rest"
        by simp_all
      note P = processEntry_total[OF pe Cons.prems(2,3) fit(1)]
      show ?thesis
      proof (cases e1)
        case None
        with Cons.prems(1) Entry False pe
        have "extractArchive wd rest absDst t1 fs1 = (e, t', fs')"
          by (simp add: Let_def)
        from Cons.IH[OF this _ _ fit(2)] P Cons.prems(2) show ?thesis
          by auto
      next
        case (Some err)
        with Cons.prems(1) Entry False pe P show ?thesis by (simp add: Let_def)
      qed
    qed
  next
    case NilHeader
    with Cons show ?thesis by simp
  next
    case BadHeader
    with Cons.prems show ?thesis by simp
  qed
qed

lemma chunks_fit_Nil [simp]: "chunks_fit []"
  by (simp add: chunks_fit_def)

text \<open>What the processing of one entry leaves behind.\<close>

lemma processEntry_frame:
  assumes "processEntry h target tr t fs = (e, t', fs')"
  shows "(\<forall>q. q \<noteq> resolve target \<and> fs q \<noteq> None \<longrightarrow> fs' q = fs q)
         \<and> (\<forall>x. e = Some (ErrExtractFile (Name h) (ErrWriteContent x)) \<longrightarrow>
               fs' (resolve target) = None)
         \<and> (\<forall>nm n s. e = Some (ErrExtractFile (Name h) (ErrSizeAnomaly nm n s)) \<longrightarrow>
               fs' (resolve target) = None)
         \<and> (e \<noteq> None \<longrightarrow> t' = t)"
proof (cases "Typeflag h = TypeDir")
  case True
  with assms show ?thesis
    by (auto simp: processEntry_def split: prod.splits option.splits
             dest: handleDirectory_frame)
next
  case nd: False
  show ?thesis
  proof (cases "Typeflag h = TypeReg")
    case True
    obtain res fs1 where hr: "handleRegularFile target h tr t fs = (res, fs1)"
      by (cases "handleRegularFile target h tr t fs") auto
    note F = handleRegularFile_frame[OF hr]
    from assms True hr show ?thesis
      using F by (cases res) (auto simp: processEntry_def)
  next
    case False
    with assms nd show ?thesis
      by (auto simp: processEntry_def split: if_splits)
  qed
qed

lemma content_total_append [simp]:
  "content_total (a @ b) = content_total a + content_total b"
  by (induction a rule: content_total.induct) simp_all

lemma handleRegularFile_count:
  assumes "handleRegularFile target h tr cur fs = (Inr n, fs')"
    and "0 \<le> cur" and "cur \<le> MaxTotalSize" and "chunks_fit (fst tr)"
  shows "n = chunk_len (fst tr)"
proof -
  from assms(1) obtain fs2 tw fs3 where
    cp: "io_Copy \<lparr>writer = target, currentTotal = cur, written = 0\<rparr> (fst tr) (snd tr) 0 fs2
           = (n, None, tw, fs3)"
    by (auto simp: handleRegularFile_def split: sum.splits prod.splits option.splits if_splits)
  have "tw_inv \<lparr>writer = target, currentTotal = cur, written = 0\<rparr>"
    using assms(2,3) by (simp add: tw_inv_def)
  from io_Copy_count[of "\<lparr>writer = target, currentTotal = cur, written = 0\<rparr>", simplified,
      OF cp this assms(4)]
  show ?thesis by simp
qed

lemma handleRegularFile_total_error:
  assumes "handleRegularFile target h tr cur fs = (Inl (ErrWriteContent ErrTotalSize), fs')"
    and "0 \<le> cur" and "cur \<le> MaxTotalSize" and "chunks_fit (fst tr)"
  shows "MaxTotalSize < cur + chunk_len (fst tr)"
proof -
  from assms(1) obtain fs2 n tw fs3 where
    cp: "io_Copy \<lparr>writer = target, currentTotal = cur, written = 0\<rparr> (fst tr) (snd tr) 0 fs2
           = (n, Some ErrTotalSize, tw, fs3)"
    by (auto simp: handleRegularFile_def split: sum.splits prod.splits option.splits if_splits)
  have "tw_inv \<lparr>writer = target, currentTotal = cur, written = 0\<rparr>"
    using assms(2,3) by (simp add: tw_inv_def)
  from io_Copy_total_error[of "\<lparr>writer = target, currentTotal = cur, written = 0\<rparr>",
      simplified, OF cp this assms(4)]
  show ?thesis by simp
qed

lemma processEntry_sum:
  assumes "processEntry h target tr t fs = (None, t', fs')"
    and "0 \<le> t" and "t \<le> MaxTotalSize" and "chunks_fit (fst tr)"
  shows "t' = t + (if Typeflag h = TypeReg then chunk_len (fst tr) else 0)"
proof (cases "Typeflag h = TypeReg")
  case True
  from assms(1) True obtain n where
    hr: "handleRegularFile target h tr t fs = (Inr n, fs')" and t': "t' = i64 (t + n)"
    by (auto simp: processEntry_def split: prod.splits sum.splits)
  from handleRegularFile_count[OF hr assms(2-4)] have n: "n = chunk_len (fst tr)" .
  from handleRegularFile_written[OF hr assms(2-4)] have "0 \<le> n" "t + n \<le> MaxTotalSize"
    by blast+
  then have "i64 (t + n) = t + n"
    using assms(2) by (intro i64_id) (simp_all add: MaxTotalSize_def)
  with t' n True show ?thesis by simp
next
  case False
  with assms(1) show ?thesis
    by (auto simp: processEntry_def split: prod.splits option.splits if_splits)
qed

text \<open>
  The running total after the entries that were extracted is the total before them plus
  the bytes of content of their regular files.
\<close>

lemma extractArchive_sum:
  assumes "extractArchive wd items absDst t fs = (None, t', fs')"
    and "0 \<le> t" and "t \<le> MaxTotalSize" and "list_all item_fits items"
  shows "t' = t + content_total items"
  using assms
proof (induction items arbitrary: t fs)
  case Nil
  then show ?case by simp
next
  case (Cons it rest)
  show ?case
  proof (cases it)
    case (Entry h tr)
    let ?target = "filepath_Join [absDst, Name h]"
    from Cons.prems(1) Entry have chk: "\<not> MaxFileSize < Size h" "isPathSafe wd ?target absDst"
      by (auto simp: Let_def split: if_splits)
    obtain e1 t1 fs1 where pe: "processEntry h ?target tr t fs = (e1, t1, fs1)"
      by (cases "processEntry h ?target tr t fs") auto
    from Cons.prems(4) Entry have fit: "chunks_fit (fst tr)" "list_all item_fits rest"
      by simp_all
    from Cons.prems(1) Entry chk pe have e1: "e1 = None"
      and rest: "extractArchive wd rest absDst t1 fs1 = (None, t', fs')"
      by (auto simp: Let_def split: option.splits)
    note P = processEntry_total[OF pe Cons.prems(2,3) fit(1)]
    from processEntry_sum[OF pe[unfolded e1] Cons.prems(2,3) fit(1)]
    have t1: "t1 = t + (if Typeflag h = TypeReg then chunk_len (fst tr) else 0)" .
    from Cons.IH[OF rest _ _ fit(2)] P Cons.prems(2) have "t' = t1 + content_total rest"
      by simp
    with t1 Entry show ?thesis by simp
  next
    case NilHeader
    with Cons show ?thesis by simp
  next
    case BadHeader
    with Cons.prems show ?thesis by simp
  qed
qed

text \<open>Values of the example inputs.\<close>

lemma ex_resolve:
  "resolve ''/R/f'' = [''R'', ''f'']"
  "resolve (filepath_Dir ''/R/f'') = [''R'']"
  "perm_or ex_f 420 = 420"
  by code_simp+

lemma ex_perm: "may_search 493" "may_write 493" "may_write 420"
  by code_simp+

subsection \<open>Streaming enforcement of the total limit\<close>

text \<open>
  The extraction of entries that succeed, followed by a regular file whose content crosses
  the limit at one chunk, and the converse: the total-size error needs content that
  crosses the limit.
\<close>

lemma extractArchive_crossing:
  assumes t: "0 \<le> t" "t \<le> MaxTotalSize" and fit: "list_all item_fits pre"
    and pre: "extractArchive wd pre absDst t fsa = (None, t1, fsb)"
    and reg: "Typeflag h = TypeReg" and small: "Size h \<le> MaxFileSize"
    and safe: "isPathSafe wd (filepath_Join [absDst, Name h]) absDst"
    and mk: "os_MkdirAll fsb (filepath_Dir (filepath_Join [absDst, Name h])) 493 = Inr fsc"
    and op: "os_OpenFile fsc (filepath_Join [absDst, Name h]) (perm_or h 420) = Inr fsd"
    and ok: "list_all (\<lambda>(q, w). w = WriteOK) cs"
    and below: "t + content_total pre + chunk_len cs \<le> MaxTotalSize"
    and above: "MaxTotalSize < t + content_total pre + chunk_len cs + int (length p)"
    and p: "p \<noteq> []" "int (length p) \<le> 32 * 1024"
  shows "extractArchive wd (pre @ Entry h (cs @ (p, w) # rest, r) # post) absDst t fsa =
           (Some (ErrExtractFile (Name h) (ErrWriteContent ErrTotalSize)),
            t + content_total pre,
            fsd(resolve (filepath_Join [absDst, Name h]) := None))"
proof -
  let ?target = "filepath_Join [absDst, Name h]"
  let ?tw = "\<lparr>writer = ?target, currentTotal = t1, written = 0\<rparr>"
  have t1: "t1 = t + content_total pre"
    by (rule extractArchive_sum[OF pre t fit])
  from extractArchive_total[OF pre t fit] t have t1b: "0 \<le> t1" "t1 \<le> MaxTotalSize"
    by simp_all
  from os_OpenFile_Inr[OF op] obtain m where m: "fsd (resolve ?target) = Some (File m [])"
    by blast
  have inv: "tw_inv ?tw"
    using t1b by (simp add: tw_inv_def)
  have "io_Copy ?tw (cs @ (p, w) # rest) r (written ?tw) fsd =
           (written ?tw + chunk_len cs, Some ErrTotalSize,
            ?tw\<lparr>written := written ?tw + chunk_len cs\<rparr>,
            fsd(resolve (writer ?tw) \<mapsto> File m ([] @ chunk_bytes cs)))"
    using inv m ok below above p t1 by (intro io_Copy_crossing) simp_all
  then have cp: "io_Copy ?tw (cs @ (p, w) # rest) r 0 fsd =
           (chunk_len cs, Some ErrTotalSize, ?tw\<lparr>written := chunk_len cs\<rparr>,
            fsd(resolve ?target \<mapsto> File m (chunk_bytes cs)))"
    by simp
  have rm: "os_Remove (fsd(resolve ?target \<mapsto> File m (chunk_bytes cs))) ?target =
              fsd(resolve ?target := None)"
    by (subst os_Remove_file) (simp_all add: is_file_def)
  have hr: "handleRegularFile ?target h (cs @ (p, w) # rest, r) t1 fsb =
              (Inl (ErrWriteContent ErrTotalSize), fsd(resolve ?target := None))"
    using mk op cp rm by (simp add: handleRegularFile_def)
  have pe: "processEntry h ?target (cs @ (p, w) # rest, r) t1 fsb =
              (Some (ErrExtractFile (Name h) (ErrWriteContent ErrTotalSize)), t1,
               fsd(resolve ?target := None))"
    using reg hr by (simp add: processEntry_def)
  have "extractArchive wd (Entry h (cs @ (p, w) # rest, r) # post) absDst t1 fsb =
              (Some (ErrExtractFile (Name h) (ErrWriteContent ErrTotalSize)), t1,
               fsd(resolve ?target := None))"
    using small safe pe by (simp add: Let_def)
  with pre t1 show ?thesis
    by (simp add: extractArchive_append)
qed

lemma extractArchive_total_error:
  assumes t: "0 \<le> t" "t \<le> MaxTotalSize" and fit: "list_all item_fits pre" "chunks_fit (fst tr)"
    and pre: "fst (extractArchive wd pre absDst t fsa) = None"
    and err: "fst (extractArchive wd (pre @ [Entry h tr]) absDst t fsa) =
                Some (ErrExtractFile nm (ErrWriteContent ErrTotalSize))"
  shows "MaxTotalSize < t + content_total pre + chunk_len (fst tr)"
proof -
  let ?target = "filepath_Join [absDst, Name h]"
  obtain t1 fsb where p1: "extractArchive wd pre absDst t fsa = (None, t1, fsb)"
    using pre by (cases "extractArchive wd pre absDst t fsa") auto
  have t1: "t1 = t + content_total pre"
    by (rule extractArchive_sum[OF p1 t fit(1)])
  from extractArchive_total[OF p1 t fit(1)] t have t1b: "0 \<le> t1" "t1 \<le> MaxTotalSize"
    by simp_all
  from err p1 have e1: "fst (extractArchive wd [Entry h tr] absDst t1 fsb) =
                Some (ErrExtractFile nm (ErrWriteContent ErrTotalSize))"
    by (simp add: extractArchive_append)
  then have pe: "fst (processEntry h ?target tr t1 fsb) =
                Some (ErrExtractFile nm (ErrWriteContent ErrTotalSize))"
    by (auto simp: Let_def split: if_splits prod.splits option.splits)
  then obtain fs' where "handleRegularFile ?target h tr t1 fsb =
      (Inl (ErrWriteContent ErrTotalSize), fs')"
    by (auto simp: processEntry_def split: if_splits prod.splits option.splits sum.splits)
  from handleRegularFile_total_error[OF this t1b fit(2)] t1 show ?thesis
    by simp
qed

text \<open>
  Claim C3. During the extraction of a regular file the tracking writer, whose counters
  satisfy \<open>tw_inv\<close>, accepts a chunk exactly when the running total before the entry
  plus the bytes written for the entry plus the length of the chunk is at most
  \<open>MaxTotalSize\<close>; a rejected chunk changes neither the file nor the counters (zero
  bytes written), and the bound holds again after every write. When all chunks before
  the first one that would cross the limit are written in full, the copy stops exactly at
  that chunk: the file holds the bytes of the chunks before it and nothing of it or of
  later chunks, and the error is the total-size error. That error fails the entry (the
  file is removed). The running total is cumulative: it stays between zero and
  \<open>MaxTotalSize\<close>, and after entries that were extracted it is the total before them
  plus the bytes of content of their regular files. So the extraction of an archive fails
  with the total-size error at the chunk with which the bytes written for the earlier
  entries and for the current one would pass the limit, with the total those entries
  reached and in the state they left, the file of the current entry removed; and it fails
  with that error at an entry only if the content of the entry, added to what was written
  before, passes the limit.
\<close>

theorem streaming_total_limit:
  "(tw_inv tw \<and> int (length p) \<le> 32 * 1024 \<longrightarrow>
      trackingWriter_Write tw p w fs =
        (if currentTotal tw + written tw + int (length p) \<le> MaxTotalSize
         then (case file_Write fs (writer tw) p w of
                 (n, err, fs') \<Rightarrow>
                   (n, map_option ErrOS err, tw\<lparr>written := written tw + n\<rparr>, fs'))
         else (0, Some ErrTotalSize, tw, fs))
      \<and> tw_inv (fst (snd (snd (trackingWriter_Write tw p w fs)))))
   \<and> (tw_inv tw \<and> fs (resolve (writer tw)) = Some (File m c)
        \<and> list_all (\<lambda>(q, w). w = WriteOK) cs
        \<and> currentTotal tw + written tw + chunk_len cs \<le> MaxTotalSize
        \<and> MaxTotalSize < currentTotal tw + written tw + chunk_len cs + int (length p)
        \<and> p \<noteq> [] \<and> int (length p) \<le> 32 * 1024 \<longrightarrow>
      io_Copy tw (cs @ (p, w) # rest) r (written tw) fs =
        (written tw + chunk_len cs, Some ErrTotalSize,
         tw\<lparr>written := written tw + chunk_len cs\<rparr>,
         fs(resolve (writer tw) \<mapsto> File m (c @ chunk_bytes cs))))
   \<and> (os_MkdirAll fs0 (filepath_Dir target) 493 = Inr fs1
        \<and> os_OpenFile fs1 target (perm_or h 420) = Inr fs2
        \<and> io_Copy \<lparr>writer = target, currentTotal = cur, written = 0\<rparr> (fst tr) (snd tr) 0 fs2 =
            (k, Some ErrTotalSize, tw', fs3) \<longrightarrow>
      handleRegularFile target h tr cur fs0 =
        (Inl (ErrWriteContent ErrTotalSize), fs3(resolve target := None)))
   \<and> (0 \<le> t \<and> t \<le> MaxTotalSize \<and> list_all item_fits items \<longrightarrow>
        0 \<le> fst (snd (extractArchive wd items absDst t fsa))
        \<and> fst (snd (extractArchive wd items absDst t fsa)) \<le> MaxTotalSize
        \<and> (fst (extractArchive wd items absDst t fsa) = None \<longrightarrow>
             fst (snd (extractArchive wd items absDst t fsa)) = t + content_total items))
   \<and> (0 \<le> t \<and> t \<le> MaxTotalSize \<and> list_all item_fits items
        \<and> extractArchive wd items absDst t fsa = (None, t1, fsb)
        \<and> Typeflag h = TypeReg \<and> Size h \<le> MaxFileSize
        \<and> isPathSafe wd (filepath_Join [absDst, Name h]) absDst
        \<and> os_MkdirAll fsb (filepath_Dir (filepath_Join [absDst, Name h])) 493 = Inr fsc
        \<and> os_OpenFile fsc (filepath_Join [absDst, Name h]) (perm_or h 420) = Inr fsd
        \<and> list_all (\<lambda>(q, w). w = WriteOK) cs
        \<and> t + content_total items + chunk_len cs \<le> MaxTotalSize
        \<and> MaxTotalSize < t + content_total items + chunk_len cs + int (length p)
        \<and> p \<noteq> [] \<and> int (length p) \<le> 32 * 1024 \<longrightarrow>
      extractArchive wd (items @ Entry h (cs @ (p, w) # rest, r) # post) absDst t fsa =
        (Some (ErrExtractFile (Name h) (ErrWriteContent ErrTotalSize)),
         t + content_total items,
         fsd(resolve (filepath_Join [absDst, Name h]) := None)))
   \<and> (0 \<le> t \<and> t \<le> MaxTotalSize \<and> list_all item_fits items \<and> chunks_fit (fst tr)
        \<and> fst (extractArchive wd items absDst t fsa) = None
        \<and> fst (extractArchive wd (items @ [Entry h tr]) absDst t fsa) =
             Some (ErrExtractFile nm (ErrWriteContent ErrTotalSize)) \<longrightarrow>
      MaxTotalSize < t + content_total items + chunk_len (fst tr))"
proof (intro conjI impI)
  assume a: "tw_inv tw \<and> int (length p) \<le> 32 * 1024"
  then have len: "int (length p) \<le> 2 ^ 62" by simp
  show "trackingWriter_Write tw p w fs =
        (if currentTotal tw + written tw + int (length p) \<le> MaxTotalSize
         then (case file_Write fs (writer tw) p w of
                 (n, err, fs') \<Rightarrow>
                   (n, map_option ErrOS err, tw\<lparr>written := written tw + n\<rparr>, fs'))
         else (0, Some ErrTotalSize, tw, fs))"
    using a len by (simp add: Write_accepts Write_rejects)
  obtain n e tw1 fs1 where W: "trackingWriter_Write tw p w fs = (n, e, tw1, fs1)"
    by (cases "trackingWriter_Write tw p w fs") auto
  from Write_inv[OF _ len W] a
  show "tw_inv (fst (snd (snd (trackingWriter_Write tw p w fs))))"
    by (simp add: W)
next
  assume "tw_inv tw \<and> fs (resolve (writer tw)) = Some (File m c)
        \<and> list_all (\<lambda>(q, w). w = WriteOK) cs
        \<and> currentTotal tw + written tw + chunk_len cs \<le> MaxTotalSize
        \<and> MaxTotalSize < currentTotal tw + written tw + chunk_len cs + int (length p)
        \<and> p \<noteq> [] \<and> int (length p) \<le> 32 * 1024"
  then show "io_Copy tw (cs @ (p, w) # rest) r (written tw) fs =
        (written tw + chunk_len cs, Some ErrTotalSize,
         tw\<lparr>written := written tw + chunk_len cs\<rparr>,
         fs(resolve (writer tw) \<mapsto> File m (c @ chunk_bytes cs)))"
    by (intro io_Copy_crossing) simp_all
next
  assume a: "os_MkdirAll fs0 (filepath_Dir target) 493 = Inr fs1
        \<and> os_OpenFile fs1 target (perm_or h 420) = Inr fs2
        \<and> io_Copy \<lparr>writer = target, currentTotal = cur, written = 0\<rparr> (fst tr) (snd tr) 0 fs2 =
            (k, Some ErrTotalSize, tw', fs3)"
  then have "is_file (fs2 (resolve target))"
    using os_OpenFile_Inr[of fs1 target "perm_or h 420" fs2] by (auto simp: is_file_def)
  with a io_Copy_frame[of "\<lparr>writer = target, currentTotal = cur, written = 0\<rparr>"
      "fst tr" "snd tr" 0 fs2 k "Some ErrTotalSize" tw' fs3]
  have "is_file (fs3 (resolve target))"
    by simp
  then have "os_Remove fs3 target = fs3(resolve target := None)"
    by (rule os_Remove_file)
  with a show "handleRegularFile target h tr cur fs0 =
        (Inl (ErrWriteContent ErrTotalSize), fs3(resolve target := None))"
    by (simp add: handleRegularFile_def)
next
  assume a: "0 \<le> t \<and> t \<le> MaxTotalSize \<and> list_all item_fits items"
  obtain e t' fs' where r: "extractArchive wd items absDst t fsa = (e, t', fs')"
    by (cases "extractArchive wd items absDst t fsa") auto
  from extractArchive_total[OF r] a
  show "0 \<le> fst (snd (extractArchive wd items absDst t fsa))"
    and "fst (snd (extractArchive wd items absDst t fsa)) \<le> MaxTotalSize"
    by (simp_all add: r)
  assume "fst (extractArchive wd items absDst t fsa) = None"
  with r have "extractArchive wd items absDst t fsa = (None, t', fs')" by simp
  from extractArchive_sum[OF this] a
  show "fst (snd (extractArchive wd items absDst t fsa)) = t + content_total items"
    by (simp add: r)
next
  assume "0 \<le> t \<and> t \<le> MaxTotalSize \<and> list_all item_fits items
        \<and> extractArchive wd items absDst t fsa = (None, t1, fsb)
        \<and> Typeflag h = TypeReg \<and> Size h \<le> MaxFileSize
        \<and> isPathSafe wd (filepath_Join [absDst, Name h]) absDst
        \<and> os_MkdirAll fsb (filepath_Dir (filepath_Join [absDst, Name h])) 493 = Inr fsc
        \<and> os_OpenFile fsc (filepath_Join [absDst, Name h]) (perm_or h 420) = Inr fsd
        \<and> list_all (\<lambda>(q, w). w = WriteOK) cs
        \<and> t + content_total items + chunk_len cs \<le> MaxTotalSize
        \<and> MaxTotalSize < t + content_total items + chunk_len cs + int (length p)
        \<and> p \<noteq> [] \<and> int (length p) \<le> 32 * 1024"
  then show "extractArchive wd (items @ Entry h (cs @ (p, w) # rest, r) # post) absDst t fsa =
        (Some (ErrExtractFile (Name h) (ErrWriteContent ErrTotalSize)),
         t + content_total items,
         fsd(resolve (filepath_Join [absDst, Name h]) := None))"
    by (intro extractArchive_crossing[where ?t1.0 = t1 and fsb = fsb and fsc = fsc]) simp_all
next
  assume "0 \<le> t \<and> t \<le> MaxTotalSize \<and> list_all item_fits items \<and> chunks_fit (fst tr)
        \<and> fst (extractArchive wd items absDst t fsa) = None
        \<and> fst (extractArchive wd (items @ [Entry h tr]) absDst t fsa) =
             Some (ErrExtractFile nm (ErrWriteContent ErrTotalSize))"
  then show "MaxTotalSize < t + content_total items + chunk_len (fst tr)"
    by (intro extractArchive_total_error[of t items tr wd absDst fsa h nm]) simp_all
qed


theorem streaming_total_limit_witness:
  "0 \<le> MaxTotalSize - 3 \<and> MaxTotalSize - 3 \<le> MaxTotalSize
   \<and> list_all item_fits [Entry ex_f ([(''x'', WriteOK)], EOF)]
   \<and> fst (extractArchive None [Entry ex_f ([(''x'', WriteOK)], EOF)] ''/R''
             (MaxTotalSize - 3) ex_fs) = None
   \<and> content_total [Entry ex_f ([(''x'', WriteOK)], EOF)] = 1
   \<and> fst (snd (extractArchive None [Entry ex_f ([(''x'', WriteOK)], EOF)] ''/R''
             (MaxTotalSize - 3) ex_fs)) = MaxTotalSize - 2
   \<and> Typeflag ex_three = TypeReg \<and> Size ex_three \<le> MaxFileSize
   \<and> isPathSafe None (filepath_Join [''/R'', Name ex_three]) ''/R''
   \<and> list_all (\<lambda>(q, w). w = WriteOK) [(''h'', WriteOK)]
   \<and> MaxTotalSize - 3 + 1 + chunk_len [(''h'', WriteOK)] \<le> MaxTotalSize
   \<and> MaxTotalSize < MaxTotalSize - 3 + 1 + chunk_len [(''h'', WriteOK)] + int (length ''jk'')
   \<and> fst (extractArchive None
        ([Entry ex_f ([(''x'', WriteOK)], EOF)]
           @ Entry ex_three ([(''h'', WriteOK)] @ (''jk'', WriteOK) # [], EOF)
           # [Entry ex_dir ([], EOF)]) ''/R'' (MaxTotalSize - 3) ex_fs) =
       Some (ErrExtractFile ''a/b.txt'' (ErrWriteContent ErrTotalSize))
   \<and> fst (snd (extractArchive None
        ([Entry ex_f ([(''x'', WriteOK)], EOF)]
           @ Entry ex_three ([(''h'', WriteOK)] @ (''jk'', WriteOK) # [], EOF)
           # [Entry ex_dir ([], EOF)]) ''/R'' (MaxTotalSize - 3) ex_fs)) = MaxTotalSize - 2
   \<and> snd (snd (extractArchive None
        ([Entry ex_f ([(''x'', WriteOK)], EOF)]
           @ Entry ex_three ([(''h'', WriteOK)] @ (''jk'', WriteOK) # [], EOF)
           # [Entry ex_dir ([], EOF)]) ''/R'' (MaxTotalSize - 3) ex_fs))
        [''R'', ''a'', ''b.txt''] = None
   \<and> fst (extractArchive None [Entry ex_three ([(''h'', WriteOK), (''jk'', WriteOK)], EOF)]
             ''/R'' (MaxTotalSize - 3) ex_fs) = None"
proof -
  let ?pre = "[Entry ex_f ([(''x'', WriteOK)], EOF)]"
  let ?t = "MaxTotalSize - 3"
  let ?X = "extractArchive None ?pre ''/R'' ?t ex_fs"
  let ?target = "filepath_Join [''/R'', Name ex_three]"
  let ?mk = "os_MkdirAll (snd (snd ?X)) (filepath_Dir ?target) 493"
  let ?op = "os_OpenFile (projr ?mk) ?target (perm_or ex_three 420)"
  have t: "0 \<le> ?t" "?t \<le> MaxTotalSize"
    by (simp_all add: MaxTotalSize_def)
  have fit: "list_all item_fits ?pre"
    by (simp add: chunks_fit_def)
  have X: "fst ?X = None"
    by code_simp
  then have X': "?X = (None, fst (snd ?X), snd (snd ?X))"
    by (metis prod.collapse)
  have ct: "content_total ?pre = 1"
    by (simp add: ex_f_def)
  have X1: "fst (snd ?X) = MaxTotalSize - 2"
    by code_simp
  have h: "Typeflag ex_three = TypeReg" "Size ex_three \<le> MaxFileSize"
    "Name ex_three = ''a/b.txt''"
    by (simp_all add: ex_three_def MaxFileSize_def)
  have safe: "isPathSafe None ?target ''/R''"
    by code_simp
  have "\<not> isl ?mk"
    by code_simp
  then have mk: "?mk = Inr (projr ?mk)"
    by simp
  have "\<not> isl ?op"
    by code_simp
  then have op: "?op = Inr (projr ?op)"
    by simp
  have cs: "list_all (\<lambda>(q, w). w = WriteOK) [(''h'', WriteOK)]"
    by simp
  have below: "?t + 1 + chunk_len [(''h'', WriteOK)] \<le> MaxTotalSize"
    and above: "MaxTotalSize < ?t + 1 + chunk_len [(''h'', WriteOK)] + int (length ''jk'')"
    by simp_all
  have T: "resolve ?target = [''R'', ''a'', ''b.txt'']"
    by code_simp
  have alone: "fst (extractArchive None
      [Entry ex_three ([(''h'', WriteOK), (''jk'', WriteOK)], EOF)] ''/R'' ?t ex_fs) = None"
    by code_simp
  from streaming_total_limit
    [where t = ?t and items = ?pre and wd = None and absDst = "''/R''" and fsa = ex_fs
       and ?t1.0 = "fst (snd ?X)" and fsb = "snd (snd ?X)" and h = ex_three
       and fsc = "projr ?mk" and fsd = "projr ?op" and cs = "[(''h'', WriteOK)]"
       and p = "''jk''" and w = WriteOK and rest = "[]" and r = EOF
       and post = "[Entry ex_dir ([], EOF)]"]
  have "0 \<le> ?t \<and> ?t \<le> MaxTotalSize \<and> list_all item_fits ?pre
        \<and> ?X = (None, fst (snd ?X), snd (snd ?X))
        \<and> Typeflag ex_three = TypeReg \<and> Size ex_three \<le> MaxFileSize
        \<and> isPathSafe None ?target ''/R''
        \<and> ?mk = Inr (projr ?mk) \<and> ?op = Inr (projr ?op)
        \<and> list_all (\<lambda>(q, w). w = WriteOK) [(''h'', WriteOK)]
        \<and> ?t + content_total ?pre + chunk_len [(''h'', WriteOK)] \<le> MaxTotalSize
        \<and> MaxTotalSize < ?t + content_total ?pre + chunk_len [(''h'', WriteOK)]
             + int (length ''jk'')
        \<and> ''jk'' \<noteq> [] \<and> int (length ''jk'') \<le> 32 * 1024 \<longrightarrow>
      extractArchive None
        (?pre @ Entry ex_three ([(''h'', WriteOK)] @ (''jk'', WriteOK) # [], EOF)
           # [Entry ex_dir ([], EOF)]) ''/R'' ?t ex_fs =
        (Some (ErrExtractFile (Name ex_three) (ErrWriteContent ErrTotalSize)),
         ?t + content_total ?pre, (projr ?op)(resolve ?target := None))"
    by blast
  moreover have "''jk'' \<noteq> []" "int (length ''jk'') \<le> 32 * 1024"
    by simp_all
  moreover note t fit X' h(1,2) safe mk op cs below[folded ct] above[folded ct]
  ultimately have E: "extractArchive None
        (?pre @ Entry ex_three ([(''h'', WriteOK)] @ (''jk'', WriteOK) # [], EOF)
           # [Entry ex_dir ([], EOF)]) ''/R'' ?t ex_fs =
        (Some (ErrExtractFile (Name ex_three) (ErrWriteContent ErrTotalSize)),
         ?t + content_total ?pre, (projr ?op)(resolve ?target := None))"
    by blast
  have e1: "fst (extractArchive None
        (?pre @ Entry ex_three ([(''h'', WriteOK)] @ (''jk'', WriteOK) # [], EOF)
           # [Entry ex_dir ([], EOF)]) ''/R'' ?t ex_fs) =
       Some (ErrExtractFile ''a/b.txt'' (ErrWriteContent ErrTotalSize))"
    unfolding E using h(3) by simp
  have e2: "fst (snd (extractArchive None
        (?pre @ Entry ex_three ([(''h'', WriteOK)] @ (''jk'', WriteOK) # [], EOF)
           # [Entry ex_dir ([], EOF)]) ''/R'' ?t ex_fs)) = MaxTotalSize - 2"
    unfolding E using ct by simp
  have e3: "snd (snd (extractArchive None
        (?pre @ Entry ex_three ([(''h'', WriteOK)] @ (''jk'', WriteOK) # [], EOF)
           # [Entry ex_dir ([], EOF)]) ''/R'' ?t ex_fs)) [''R'', ''a'', ''b.txt''] = None"
    unfolding E using T by simp
  show ?thesis
    by (intro conjI t fit X ct X1 h(1,2) safe cs below above e1 e2 e3 alone)
qed

subsection \<open>The bytes written for one file\<close>



text \<open>
  The bound rests on the pre-check and on the content being no longer than declared, not
  on the writer: called on its own with a counter that has reached \<open>MaxFileSize\<close>, a
  state that no extraction reaches, \<open>Write\<close> accepts a further byte.
\<close>

lemma Write_without_per_file_check:
  "fst (trackingWriter_Write \<lparr>writer = ''/R/f'', currentTotal = 0, written = MaxFileSize\<rparr>
          ''x'' WriteOK ex_open) = 1
   \<and> written (fst (snd (snd (trackingWriter_Write
          \<lparr>writer = ''/R/f'', currentTotal = 0, written = MaxFileSize\<rparr>
          ''x'' WriteOK ex_open)))) = MaxFileSize + 1"
  by code_simp

subsection \<open>Failure: abort and cleanup\<close>

text \<open>
  Claim C6 (amended). When an entry that is reached fails, the extraction ends with that
  error whatever entries follow (none of them is processed) and the running total is the
  one before the entry. Every file system object that existed before the failing entry
  at a path other than the entry's own target is unchanged (no rollback of earlier
  entries). If the entry failed while or after its content was copied (write-content or
  size-anomaly error), nothing exists at its target afterwards: the partial file is
  removed.
\<close>

theorem failure_aborts_and_cleans_up:
  assumes "fst (extractArchive wd pre absDst t fs) = None"
    and "fst (extractArchive wd (pre @ [Entry h tr]) absDst t fs) = Some e"
  shows "extractArchive wd (pre @ Entry h tr # post) absDst t fs =
           extractArchive wd (pre @ [Entry h tr]) absDst t fs
         \<and> fst (snd (extractArchive wd (pre @ [Entry h tr]) absDst t fs)) =
             fst (snd (extractArchive wd pre absDst t fs))
         \<and> (\<forall>q. q \<noteq> resolve (filepath_Join [absDst, Name h])
                 \<and> snd (snd (extractArchive wd pre absDst t fs)) q \<noteq> None \<longrightarrow>
               snd (snd (extractArchive wd (pre @ [Entry h tr]) absDst t fs)) q =
                 snd (snd (extractArchive wd pre absDst t fs)) q)
         \<and> ((\<exists>x. e = ErrExtractFile (Name h) (ErrWriteContent x))
              \<or> (\<exists>nm n s. e = ErrExtractFile (Name h) (ErrSizeAnomaly nm n s)) \<longrightarrow>
             snd (snd (extractArchive wd (pre @ [Entry h tr]) absDst t fs))
               (resolve (filepath_Join [absDst, Name h])) = None)"
proof -
  obtain t1 fs1 where s1: "extractArchive wd pre absDst t fs = (None, t1, fs1)"
    using assms(1) by (cases "extractArchive wd pre absDst t fs") auto
  let ?target = "filepath_Join [absDst, Name h]"
  have one: "extractArchive wd (pre @ [Entry h tr]) absDst t fs =
               extractArchive wd [Entry h tr] absDst t1 fs1"
    and more: "extractArchive wd (pre @ Entry h tr # post) absDst t fs =
               extractArchive wd (Entry h tr # post) absDst t1 fs1"
    using s1 by (simp_all add: extractArchive_append)
  show ?thesis
  proof (cases "MaxFileSize < Size h \<or> \<not> isPathSafe wd ?target absDst")
    case True
    with assms(2) s1 one more show ?thesis
      by (auto simp: Let_def split: if_splits)
  next
    case False
    obtain e1 t2 fs2 where pe: "processEntry h ?target tr t1 fs1 = (e1, t2, fs2)"
      by (cases "processEntry h ?target tr t1 fs1") auto
    with assms(2) one False have e1: "e1 = Some e"
      by (cases e1) (simp_all add: Let_def)
    note F = processEntry_frame[OF pe]
    from False pe e1 have r1: "extractArchive wd [Entry h tr] absDst t1 fs1 = (Some e, t2, fs2)"
      and r2: "extractArchive wd (Entry h tr # post) absDst t1 fs1 = (Some e, t2, fs2)"
      by (simp_all add: Let_def)
    have "extractArchive wd (pre @ [Entry h tr]) absDst t fs = (Some e, t2, fs2)"
      and "extractArchive wd (pre @ Entry h tr # post) absDst t fs = (Some e, t2, fs2)"
      using one more r1 r2 by (simp_all only:)
    with F e1 s1 show ?thesis
      by simp
  qed
qed

theorem failure_aborts_and_cleans_up_witness:
  "fst (extractArchive None [Entry ex_dir ([], EOF)] ''/R'' 0 ex_fs) = None
   \<and> fst (extractArchive None
        ([Entry ex_dir ([], EOF)] @ [Entry ex_file ([(''h'', WriteOK)], ReadError)])
        ''/R'' 0 ex_fs) = Some (ErrExtractFile ''a/b.txt'' (ErrWriteContent ErrRead))
   \<and> extractArchive None
        ([Entry ex_dir ([], EOF)] @ Entry ex_file ([(''h'', WriteOK)], ReadError)
           # [Entry ex_f ([(''x'', WriteOK)], EOF)]) ''/R'' 0 ex_fs =
       extractArchive None
        ([Entry ex_dir ([], EOF)] @ [Entry ex_file ([(''h'', WriteOK)], ReadError)])
        ''/R'' 0 ex_fs
   \<and> snd (snd (extractArchive None
        ([Entry ex_dir ([], EOF)] @ [Entry ex_file ([(''h'', WriteOK)], ReadError)])
        ''/R'' 0 ex_fs)) (resolve (filepath_Join [''/R'', Name ex_file])) = None
   \<and> snd (snd (extractArchive None
        ([Entry ex_dir ([], EOF)] @ [Entry ex_file ([(''h'', WriteOK)], ReadError)])
        ''/R'' 0 ex_fs)) [''R'', ''a''] = Some (Dir 493)"
proof -
  have 1: "fst (extractArchive None [Entry ex_dir ([], EOF)] ''/R'' 0 ex_fs) = None"
    by code_simp
  have 2: "fst (extractArchive None
        ([Entry ex_dir ([], EOF)] @ [Entry ex_file ([(''h'', WriteOK)], ReadError)])
        ''/R'' 0 ex_fs) = Some (ErrExtractFile ''a/b.txt'' (ErrWriteContent ErrRead))"
    by code_simp
  have 3: "Name ex_file = ''a/b.txt''"
    by (simp add: ex_file_def)
  have 4: "snd (snd (extractArchive None
        ([Entry ex_dir ([], EOF)] @ [Entry ex_file ([(''h'', WriteOK)], ReadError)])
        ''/R'' 0 ex_fs)) [''R'', ''a''] = Some (Dir 493)"
    by code_simp
  from failure_aborts_and_cleans_up [OF 1 2, of "[Entry ex_f ([(''x'', WriteOK)], EOF)]"] 1 2 3 4
  show ?thesis by simp
qed

text \<open>
  The claim as stated fails for an entry already materialized at the target of the failing
  entry: the archive holds \<open>a/b.txt\<close> twice, the first copy is extracted in full, the
  second one truncates it, fails while reading, and the file is removed.
\<close>

theorem failure_cleanup_counterexample:
  "fst (extractArchive None [Entry ex_file ([(''hi'', WriteOK)], EOF)] ''/R'' 0 ex_fs) = None
   \<and> snd (snd (extractArchive None [Entry ex_file ([(''hi'', WriteOK)], EOF)] ''/R'' 0 ex_fs))
        [''R'', ''a'', ''b.txt''] = Some (File 420 ''hi'')
   \<and> fst (extractArchive None
        [Entry ex_file ([(''hi'', WriteOK)], EOF), Entry ex_file ([(''h'', WriteOK)], ReadError)]
        ''/R'' 0 ex_fs) = Some (ErrExtractFile ''a/b.txt'' (ErrWriteContent ErrRead))
   \<and> snd (snd (extractArchive None
        [Entry ex_file ([(''hi'', WriteOK)], EOF), Entry ex_file ([(''h'', WriteOK)], ReadError)]
        ''/R'' 0 ex_fs)) [''R'', ''a'', ''b.txt''] = None"
  by code_simp

subsection \<open>The post-check of the size\<close>

text \<open>
  Claim C9. A regular-file entry (declared size between zero and \<open>MaxFileSize\<close>, as
  the tar reader and the pre-check guarantee) whose file was opened and whose copy
  completed with more than twice the declared size written fails with the size-anomaly
  error, and the target file is removed: nothing exists at the target afterwards.
\<close>

theorem size_anomaly_removes_file:
  assumes "0 \<le> Size h" and "Size h \<le> MaxFileSize"
    and "os_MkdirAll fs (filepath_Dir target) 493 = Inr fs1"
    and "os_OpenFile fs1 target (perm_or h 420) = Inr fs2"
    and "io_Copy \<lparr>writer = target, currentTotal = cur, written = 0\<rparr> (fst tr) (snd tr) 0 fs2 =
           (n, None, tw, fs3)"
    and "2 * Size h < n"
  shows "handleRegularFile target h tr cur fs =
           (Inl (ErrSizeAnomaly (Name h) n (Size h)), fs3(resolve target := None))
         \<and> os_Stat (snd (handleRegularFile target h tr cur fs)) target = None
         \<and> (Typeflag h = TypeReg \<longrightarrow>
              processEntry h target tr cur fs =
                (Some (ErrExtractFile (Name h) (ErrSizeAnomaly (Name h) n (Size h))), cur,
                 fs3(resolve target := None)))"
proof -
  have "i64 (Size h * 2) = Size h * 2"
    using assms(1,2) by (intro i64_id) (simp_all add: MaxFileSize_def)
  with assms(6) have big: "i64 (Size h * 2) < n" by simp
  have "is_file (fs2 (resolve target))"
    using os_OpenFile_Inr[OF assms(4)] by (auto simp: is_file_def)
  with io_Copy_frame[OF assms(5)] have "is_file (fs3 (resolve target))"
    by simp
  then have rm: "os_Remove fs3 target = fs3(resolve target := None)"
    by (rule os_Remove_file)
  have hr: "handleRegularFile target h tr cur fs =
           (Inl (ErrSizeAnomaly (Name h) n (Size h)), fs3(resolve target := None))"
    using assms(3,4,5) big rm by (simp add: handleRegularFile_def)
  have "os_Stat (fs3(resolve target := None)) target = None"
    by (rule os_Stat_absent) simp
  with hr show ?thesis
    by (simp add: processEntry_def)
qed

theorem size_anomaly_removes_file_witness:
  "0 \<le> Size ex_f \<and> Size ex_f \<le> MaxFileSize
   \<and> os_MkdirAll ex_fs (filepath_Dir ''/R/f'') 493 = Inr ex_fs
   \<and> os_OpenFile ex_fs ''/R/f'' (perm_or ex_f 420) = Inr ex_open
   \<and> io_Copy \<lparr>writer = ''/R/f'', currentTotal = 0, written = 0\<rparr>
        (fst ([(''abcd'', WriteOK)], EOF)) (snd ([(''abcd'', WriteOK)], EOF)) 0 ex_open =
       (4, None, \<lparr>writer = ''/R/f'', currentTotal = 0, written = 4\<rparr>,
        ex_open([''R'', ''f''] \<mapsto> File 420 ''abcd''))
   \<and> 2 * Size ex_f < 4
   \<and> handleRegularFile ''/R/f'' ex_f ([(''abcd'', WriteOK)], EOF) 0 ex_fs =
       (Inl (ErrSizeAnomaly (Name ex_f) 4 (Size ex_f)),
        (ex_open([''R'', ''f''] \<mapsto> File 420 ''abcd''))(resolve ''/R/f'' := None))
   \<and> os_Stat (snd (handleRegularFile ''/R/f'' ex_f ([(''abcd'', WriteOK)], EOF) 0 ex_fs)) ''/R/f''
       = None"
proof -
  have 1: "0 \<le> Size ex_f" and 2: "Size ex_f \<le> MaxFileSize" and 6: "2 * Size ex_f < 4"
    by (simp_all add: ex_f_def MaxFileSize_def)
  have 3: "os_MkdirAll ex_fs (filepath_Dir ''/R/f'') 493 = Inr ex_fs"
    unfolding os_MkdirAll_def ex_resolve
    by (simp add: ex_fs_def ex_perm PATH_MAX_def NAME_MAX_def)
  have 4: "os_OpenFile ex_fs ''/R/f'' (perm_or ex_f 420) = Inr ex_open"
    by (simp add: os_OpenFile_def ex_resolve ex_fs_def ex_open_def ex_perm
          PATH_MAX_def NAME_MAX_def)
  have 5: "io_Copy \<lparr>writer = ''/R/f'', currentTotal = 0, written = 0\<rparr>
        (fst ([(''abcd'', WriteOK)], EOF)) (snd ([(''abcd'', WriteOK)], EOF)) 0 ex_open =
       (4, None, \<lparr>writer = ''/R/f'', currentTotal = 0, written = 4\<rparr>,
        ex_open([''R'', ''f''] \<mapsto> File 420 ''abcd''))"
    by (simp add: trackingWriter_Write_def validateTotalSize_def i64_def MaxTotalSize_def
          file_Write_def ex_resolve ex_open_def)
  note C = size_anomaly_removes_file [OF 1 2 3 4 5 6]
  show ?thesis
    by (intro conjI 1 2 3 4 5 6 C [THEN conjunct1] C [THEN conjunct2, THEN conjunct1])
qed

subsection \<open>Directory entries\<close>

text \<open>
  Claim C7 (amended). A directory entry that passes the checks of the size and of the path
  is handled by \<open>handleDirectory\<close>, and its error ends the extraction. If
  \<open>os.Stat\<close> finds a directory at the target, the entry succeeds and changes nothing;
  if it finds a regular file, the entry fails and changes nothing. If it finds nothing, the
  entry calls \<open>os.MkdirAll\<close> with the permission bits of the header masked by
  \<open>0777\<close>, or \<open>0755\<close> when the masked bits are zero, and succeeds exactly when
  that call does: then the target and every missing ancestor are directories with these
  bits and everything else is unchanged; otherwise the entry fails, what existed is
  unchanged, and what was created are missing ancestors of the target, with these bits.
  The call succeeds, and the target is found afterwards, when nothing exists at the target
  and \<open>mkdir_ok\<close> holds; it fails when a regular file lies on the path, when an
  element is longer than \<open>NAME_MAX\<close> and when the path is as long as
  \<open>PATH_MAX\<close>. An entry that succeeded succeeds again as a no-op.
\<close>

theorem handleDirectory_behaviour:
  "(Typeflag h = TypeDir \<and> Size h \<le> MaxFileSize
      \<and> isPathSafe wd (filepath_Join [absDst, Name h]) absDst \<longrightarrow>
      extractArchive wd (Entry h tr # rest) absDst t fs =
        (case handleDirectory (filepath_Join [absDst, Name h]) h fs of
           (None, fs') \<Rightarrow> extractArchive wd rest absDst t fs'
         | (Some e, fs') \<Rightarrow> (Some (ErrCreateDirectory (Name h) e), t, fs')))
   \<and> (\<forall>pm. os_Stat fs target = Some (Dir pm) \<longrightarrow> handleDirectory target h fs = (None, fs))
   \<and> (\<forall>pm c. os_Stat fs target = Some (File pm c) \<longrightarrow>
         fst (handleDirectory target h fs) \<noteq> None \<and> snd (handleDirectory target h fs) = fs)
   \<and> (os_Stat fs target = None \<longrightarrow>
        (case os_MkdirAll fs target (perm_or h 493) of
           Inr fs' \<Rightarrow>
             handleDirectory target h fs = (None, fs')
             \<and> (\<forall>q. fs' q = (if prefix q (resolve target) \<and> fs q = None
                             then Some (Dir (perm_or h 493)) else fs q))
             \<and> (\<forall>q. prefix q (resolve target) \<longrightarrow> is_dir (fs' q))
         | Inl (e, fs') \<Rightarrow>
             handleDirectory target h fs = (Some (ErrOS e), fs')
             \<and> (\<forall>q. fs q \<noteq> None \<longrightarrow> fs' q = fs q)
             \<and> (\<forall>q. fs q = None \<and> fs' q \<noteq> None \<longrightarrow>
                    fs' q = Some (Dir (perm_or h 493)) \<and> strict_prefix q (resolve target))))
   \<and> (fs (resolve target) = None \<and> mkdir_ok fs (resolve target) (perm_or h 493) \<longrightarrow>
        fst (handleDirectory target h fs) = None
        \<and> os_Stat (snd (handleDirectory target h fs)) target = Some (Dir (perm_or h 493)))
   \<and> (os_Stat fs target = None
        \<and> ((\<exists>q. prefix q (resolve target) \<and> is_file (fs q))
           \<or> (\<exists>e \<in> set (resolve target). NAME_MAX < length e)
           \<or> PATH_MAX \<le> path_len (resolve target)) \<longrightarrow>
        fst (handleDirectory target h fs) \<noteq> None)
   \<and> perm_or h 493 =
        (if and (take_bit 32 (Mode h)) 511 = 0 then 493 else and (take_bit 32 (Mode h)) 511)
   \<and> (fst (handleDirectory target h fs) = None \<longrightarrow>
         handleDirectory target h (snd (handleDirectory target h fs)) =
           (None, snd (handleDirectory target h fs)))"
proof (intro conjI allI impI)
  assume "Typeflag h = TypeDir \<and> Size h \<le> MaxFileSize
      \<and> isPathSafe wd (filepath_Join [absDst, Name h]) absDst"
  then show "extractArchive wd (Entry h tr # rest) absDst t fs =
        (case handleDirectory (filepath_Join [absDst, Name h]) h fs of
           (None, fs') \<Rightarrow> extractArchive wd rest absDst t fs'
         | (Some e, fs') \<Rightarrow> (Some (ErrCreateDirectory (Name h) e), t, fs'))"
    by (simp add: Let_def processEntry_def split: prod.splits option.splits)
next
  fix pm assume "os_Stat fs target = Some (Dir pm)"
  then show "handleDirectory target h fs = (None, fs)"
    by (simp add: handleDirectory_def)
next
  fix pm c assume "os_Stat fs target = Some (File pm c)"
  then show "fst (handleDirectory target h fs) \<noteq> None" "snd (handleDirectory target h fs) = fs"
    by (simp_all add: handleDirectory_def)
next
  assume st: "os_Stat fs target = None"
  show "case os_MkdirAll fs target (perm_or h 493) of
           Inr fs' \<Rightarrow>
             handleDirectory target h fs = (None, fs')
             \<and> (\<forall>q. fs' q = (if prefix q (resolve target) \<and> fs q = None
                             then Some (Dir (perm_or h 493)) else fs q))
             \<and> (\<forall>q. prefix q (resolve target) \<longrightarrow> is_dir (fs' q))
         | Inl (e, fs') \<Rightarrow>
             handleDirectory target h fs = (Some (ErrOS e), fs')
             \<and> (\<forall>q. fs q \<noteq> None \<longrightarrow> fs' q = fs q)
             \<and> (\<forall>q. fs q = None \<and> fs' q \<noteq> None \<longrightarrow>
                    fs' q = Some (Dir (perm_or h 493)) \<and> strict_prefix q (resolve target))"
  proof (cases "os_MkdirAll fs target (perm_or h 493)")
    case (Inr fs')
    from os_MkdirAll_Inr[OF Inr] os_MkdirAll_frame[OF Inr] st Inr show ?thesis
      by (simp add: handleDirectory_def)
  next
    case (Inl r)
    obtain e fs' where r: "r = (e, fs')" by (cases r)
    from os_MkdirAll_Inl_frame[OF Inl[unfolded r]] st Inl r show ?thesis
      by (simp add: handleDirectory_def)
  qed
next
  assume a: "fs (resolve target) = None \<and> mkdir_ok fs (resolve target) (perm_or h 493)"
  then have st: "os_Stat fs target = None"
    by (simp add: os_Stat_absent)
  from a mkdir_ok_succeeds obtain fs' where mk: "os_MkdirAll fs target (perm_or h 493) = Inr fs'"
    by blast
  with st have hd: "handleDirectory target h fs = (None, fs')"
    by (simp add: handleDirectory_def)
  then show "fst (handleDirectory target h fs) = None" by simp
  from os_MkdirAll_Inr_Stat[OF mk] a hd
  show "os_Stat (snd (handleDirectory target h fs)) target = Some (Dir (perm_or h 493))"
    by auto
next
  assume a: "os_Stat fs target = None
        \<and> ((\<exists>q. prefix q (resolve target) \<and> is_file (fs q))
           \<or> (\<exists>e \<in> set (resolve target). NAME_MAX < length e)
           \<or> PATH_MAX \<le> path_len (resolve target))"
  show "fst (handleDirectory target h fs) \<noteq> None"
  proof (cases "os_MkdirAll fs target (perm_or h 493)")
    case (Inr fs')
    from os_MkdirAll_Inr_conditions[OF Inr] a show ?thesis
      by (auto simp: not_less[symmetric])
  next
    case (Inl r)
    with a show ?thesis
      by (cases r) (simp add: handleDirectory_def)
  qed
next
  show "perm_or h 493 =
        (if and (take_bit 32 (Mode h)) 511 = 0 then 493 else and (take_bit 32 (Mode h)) 511)"
    by (simp add: perm_or_def Let_def)
next
  assume ok: "fst (handleDirectory target h fs) = None"
  have "\<exists>pm. os_Stat (snd (handleDirectory target h fs)) target = Some (Dir pm)"
  proof (cases "os_Stat fs target")
    case None
    with ok obtain fs' where mk: "os_MkdirAll fs target (perm_or h 493) = Inr fs'"
      and "handleDirectory target h fs = (None, fs')"
      by (auto simp: handleDirectory_def split: sum.splits prod.splits)
    with os_MkdirAll_Inr_Stat[OF mk] show ?thesis by auto
  next
    case (Some nd)
    with ok show ?thesis
      by (cases nd) (auto simp: handleDirectory_def)
  qed
  then show "handleDirectory target h (snd (handleDirectory target h fs)) =
           (None, snd (handleDirectory target h fs))"
    by (auto simp: handleDirectory_def)
qed

theorem handleDirectory_behaviour_witness:
  "ex_fs (resolve ''/R/a'') = None
   \<and> mkdir_ok ex_fs (resolve ''/R/a'') (perm_or ex_dir 493)
   \<and> fst (handleDirectory ''/R/a'' ex_dir ex_fs) = None
   \<and> os_Stat (snd (handleDirectory ''/R/a'' ex_dir ex_fs)) ''/R/a'' = Some (Dir 493)
   \<and> handleDirectory ''/R/a'' ex_dir (snd (handleDirectory ''/R/a'' ex_dir ex_fs)) =
       (None, snd (handleDirectory ''/R/a'' ex_dir ex_fs))
   \<and> os_Stat ex_fs ''/R'' = Some (Dir 493)
   \<and> handleDirectory ''/R'' ex_dir ex_fs = (None, ex_fs)"
proof -
  have 1: "ex_fs (resolve ''/R/a'') = None"
    by code_simp
  have 2: "mkdir_ok ex_fs (resolve ''/R/a'') (perm_or ex_dir 493)"
    by code_simp
  have 3: "perm_or ex_dir 493 = 493"
    by code_simp
  have 4: "os_Stat ex_fs ''/R'' = Some (Dir 493)"
    by code_simp
  show ?thesis
    using handleDirectory_behaviour [of ex_dir None "''/R''" "([], EOF)" "[]" 0 ex_fs "''/R/a''"]
      handleDirectory_behaviour [of ex_dir None "''/R''" "([], EOF)" "[]" 0 ex_fs "''/R''"]
      1 2 3 4
    by simp
qed

text \<open>
  The claim as stated fails when the operating system refuses the creation, for instance
  for a regular file on the path: after the file \<open>a\<close> is extracted, nothing is found at
  \<open>/R/a/b\<close>, and the directory entry \<open>a/b\<close> fails without creating anything.
\<close>

theorem directory_creation_counterexample:
  "fst (extractArchive None [Entry (ex_file\<lparr>Name := ''a''\<rparr>) ([(''hi'', WriteOK)], EOF)]
          ''/R'' 0 ex_fs) = None
   \<and> os_Stat (snd (snd (extractArchive None
          [Entry (ex_file\<lparr>Name := ''a''\<rparr>) ([(''hi'', WriteOK)], EOF)] ''/R'' 0 ex_fs)))
        (filepath_Join [''/R'', ''a/b'']) = None
   \<and> fst (extractArchive None
          [Entry (ex_file\<lparr>Name := ''a''\<rparr>) ([(''hi'', WriteOK)], EOF),
           Entry (ex_dir\<lparr>Name := ''a/b''\<rparr>) ([], EOF)] ''/R'' 0 ex_fs) \<noteq> None
   \<and> snd (snd (extractArchive None
          [Entry (ex_file\<lparr>Name := ''a''\<rparr>) ([(''hi'', WriteOK)], EOF),
           Entry (ex_dir\<lparr>Name := ''a/b''\<rparr>) ([], EOF)] ''/R'' 0 ex_fs))
        (resolve (filepath_Join [''/R'', ''a/b''])) = None
   \<and> ex_conflict (resolve ''/R/a/b'') = None
   \<and> os_Stat ex_conflict ''/R/a/b'' = None
   \<and> fst (handleDirectory ''/R/a/b'' (ex_dir\<lparr>Name := ''a/b''\<rparr>) ex_conflict) \<noteq> None
   \<and> snd (handleDirectory ''/R/a/b'' (ex_dir\<lparr>Name := ''a/b''\<rparr>) ex_conflict)
        (resolve ''/R/a/b'') = None"
  by code_simp

subsection \<open>Cleaned paths and their components\<close>

lemma split_sep_not_Nil [simp]: "split_sep s \<noteq> []"
  by (induction s) (auto split: list.splits)

lemma split_sep_slash_free: "e \<in> set (split_sep s) \<Longrightarrow> CHR ''/'' \<notin> set e"
  by (induction s arbitrary: e) (auto split: list.splits if_splits)

lemma split_sep_append_sep:
  "split_sep (a @ CHR ''/'' # b) = split_sep a @ split_sep b"
  by (induction a) (auto split: list.splits)

lemma split_sep_slash_free_id: "CHR ''/'' \<notin> set e \<Longrightarrow> split_sep e = [e]"
  by (induction e) auto

lemma split_sep_join_sep:
  assumes "\<forall>e \<in> set es. CHR ''/'' \<notin> set e" and "es \<noteq> []"
  shows "split_sep (join_sep es) = es"
  using assms
proof (induction es rule: join_sep.induct)
  case 1
  then show ?case by simp
next
  case (2 e)
  then show ?case by (simp add: split_sep_slash_free_id)
next
  case (3 e v va)
  then show ?case
    by (simp add: split_sep_append_sep split_sep_slash_free_id)
qed

lemma clean_elems_normal_id:
  assumes "\<forall>e \<in> set es. normal e"
  shows "clean_elems r out es = rev out @ es"
  using assms by (induction es arbitrary: out) (auto simp: normal_def seg_ok_def)

lemma clean_elems_rooted_normal:
  assumes "\<forall>e \<in> set out. normal e" and "\<forall>e \<in> set xs. CHR ''/'' \<notin> set e"
  shows "\<forall>e \<in> set (clean_elems True out xs). normal e"
  using assms
proof (induction xs arbitrary: out)
  case Nil
  then show ?case by simp
next
  case (Cons x xs)
  from Cons.prems(2) have sf: "\<forall>e \<in> set xs. CHR ''/'' \<notin> set e" and x: "CHR ''/'' \<notin> set x"
    by simp_all
  consider (skip) "x = [] \<or> x = ''.''" | (up) "x = ''..''"
    | (push) "x \<noteq> []" "x \<noteq> ''.''" "x \<noteq> ''..''"
    by blast
  then show ?case
  proof cases
    case skip
    then have "clean_elems True out (x # xs) = clean_elems True out xs"
      by auto
    with Cons.IH[OF Cons.prems(1) sf] show ?thesis by simp
  next
    case up
    show ?thesis
    proof (cases out)
      case Nil
      with up have "clean_elems True out (x # xs) = clean_elems True [] xs"
        by simp
      with Cons.IH[of "[]", OF _ sf] show ?thesis by simp
    next
      case (Cons a out')
      with Cons.prems(1) have a: "a \<noteq> ''..''" and out': "\<forall>e \<in> set out'. normal e"
        by (auto simp: normal_def)
      with up Cons have "clean_elems True out (x # xs) = clean_elems True out' xs"
        by simp
      with Cons.IH[OF out' sf] show ?thesis by simp
    qed
  next
    case push
    then have eq: "clean_elems True out (x # xs) = clean_elems True (x # out) xs"
      by simp
    have "\<forall>e \<in> set (x # out). normal e"
      using push x Cons.prems(1) by (simp add: normal_def seg_ok_def)
    from Cons.IH[OF this sf] show ?thesis
      by (simp only: eq)
  qed
qed

lemma clean_elems_snoc_empty: "clean_elems r out (xs @ [[]]) = clean_elems r out xs"
  by (induction xs arbitrary: out) (auto split: list.splits)

lemma clean_elems_empty_first: "clean_elems r out ([] # xs) = clean_elems r out xs"
  by simp

lemma normal_slash_free: "normal e \<Longrightarrow> CHR ''/'' \<notin> set e"
  by (simp add: normal_def seg_ok_def)

text \<open>A cleaned rooted path is the separator followed by its normal elements.\<close>

lemma resolve_normal:
  assumes "\<forall>e \<in> set es. normal e"
  shows "resolve (CHR ''/'' # join_sep es) = es"
proof (cases "es = []")
  case True
  then show ?thesis by (simp add: resolve_def)
next
  case False
  have sf: "\<forall>e \<in> set es. CHR ''/'' \<notin> set e"
    using assms normal_slash_free by blast
  show ?thesis
    using assms False
    by (simp add: resolve_def split_sep_join_sep[OF sf] clean_elems_normal_id)
qed

lemma filepath_Clean_rooted:
  assumes "filepath_IsAbs p"
  shows "filepath_Clean p = CHR ''/'' # join_sep (resolve p)"
    and "\<forall>e \<in> set (resolve p). normal e"
proof -
  from assms have "p \<noteq> []" by (auto simp: filepath_IsAbs_def)
  with assms show "filepath_Clean p = CHR ''/'' # join_sep (resolve p)"
    by (simp add: filepath_Clean_def resolve_def)
  show "\<forall>e \<in> set (resolve p). normal e"
    unfolding resolve_def
    by (rule clean_elems_rooted_normal) (auto dest: split_sep_slash_free)
qed

lemma resolve_Clean:
  assumes "filepath_IsAbs p"
  shows "resolve (filepath_Clean p) = resolve p"
  using filepath_Clean_rooted[OF assms] by (simp add: resolve_normal)

lemma split_sep_dirs:
  assumes "\<forall>e \<in> set xs. CHR ''/'' \<notin> set e"
  shows "split_sep (concat (map (\<lambda>e. e @ ''/'') xs)) = xs @ [[]]"
  using assms
proof (induction xs)
  case Nil
  then show ?case by simp
next
  case (Cons x xs)
  have "concat (map (\<lambda>e. e @ ''/'') (x # xs)) = x @ CHR ''/'' # concat (map (\<lambda>e. e @ ''/'') xs)"
    by simp
  with Cons show ?case
    by (simp only: split_sep_append_sep) (simp add: split_sep_slash_free_id)
qed

text \<open>The directory of a cleaned rooted path is the path without its last element.\<close>

lemma resolve_Dir_normal:
  assumes "\<forall>e \<in> set es. normal e"
  shows "resolve (filepath_Dir (CHR ''/'' # join_sep es)) = butlast es"
proof -
  have sf: "\<forall>e \<in> set es. CHR ''/'' \<notin> set e"
    using assms normal_slash_free by blast
  define pieces where "pieces = butlast (split_sep (CHR ''/'' # join_sep es))"
  define d where "d = concat (map (\<lambda>e. e @ ''/'') pieces)"
  have pieces: "pieces = [] # butlast es"
    unfolding pieces_def using sf by (cases "es = []") (simp_all add: split_sep_join_sep)
  have sfp: "\<forall>e \<in> set pieces. CHR ''/'' \<notin> set e"
    unfolding pieces using sf by (auto dest: in_set_butlastD)
  have abs: "filepath_IsAbs d"
    by (simp add: d_def pieces filepath_IsAbs_def)
  have nb: "\<forall>e \<in> set (butlast es). normal e"
    using assms by (auto dest: in_set_butlastD)
  have "resolve d = clean_elems True [] (pieces @ [[]])"
    unfolding d_def by (simp only: resolve_def split_sep_dirs[OF sfp])
  also have "\<dots> = clean_elems True [] (butlast es)"
    by (simp add: clean_elems_snoc_empty pieces)
  also have "\<dots> = butlast es"
    using nb by (simp add: clean_elems_normal_id)
  finally have "resolve d = butlast es" .
  then show ?thesis
    unfolding filepath_Dir_def pieces_def[symmetric] d_def[symmetric]
    by (simp add: resolve_Clean[OF abs])
qed

subsection \<open>Entries that succeed\<close>

lemma io_Copy_all:
  assumes "tw_inv tw"
    and "fs (resolve (writer tw)) = Some (File m c)"
    and "list_all (\<lambda>(q, w). w = WriteOK) cs"
    and "currentTotal tw + written tw + chunk_len cs \<le> MaxTotalSize"
  shows "io_Copy tw cs EOF (written tw) fs =
           (written tw + chunk_len cs, None,
            tw\<lparr>written := written tw + chunk_len cs\<rparr>,
            fs(resolve (writer tw) \<mapsto> File m (c @ chunk_bytes cs)))"
  using assms
proof (induction cs arbitrary: tw fs c)
  case Nil
  have "fs(resolve (writer tw) \<mapsto> File m c) = fs"
    using Nil(2) by (simp add: map_upd_triv)
  then show ?case by simp
next
  case (Cons a cs)
  obtain q wq where a: "a = (q, wq)" by (cases a)
  with Cons.prems(3) have wq: "wq = WriteOK" and ok: "list_all (\<lambda>(q, w). w = WriteOK) cs"
    by simp_all
  have len: "0 \<le> chunk_len cs"
    by (rule chunk_len_nonneg)
  show ?case
  proof (cases "q = []")
    case True
    with Cons.prems a have
      "io_Copy tw cs EOF (written tw) fs =
         (written tw + chunk_len cs, None, tw\<lparr>written := written tw + chunk_len cs\<rparr>,
          fs(resolve (writer tw) \<mapsto> File m (c @ chunk_bytes cs)))"
      by (intro Cons.IH ok) simp_all
    moreover have "io_Copy tw (a # cs) EOF (written tw) fs = io_Copy tw cs EOF (written tw) fs"
      using True a by simp
    moreover have "chunk_len (a # cs) = chunk_len cs" "chunk_bytes (a # cs) = chunk_bytes cs"
      using True a by simp_all
    ultimately show ?thesis by (simp only:)
  next
    case False
    let ?tw1 = "tw\<lparr>written := written tw + int (length q)\<rparr>"
    let ?fs1 = "fs(resolve (writer tw) \<mapsto> File m (c @ q))"
    have small: "int (length q) \<le> 2 ^ 62"
      using Cons.prems(1,4) a len by (simp add: tw_inv_def MaxTotalSize_def)
    have fits: "currentTotal tw + written tw + int (length q) \<le> MaxTotalSize"
      using Cons.prems(4) a len by simp
    have W: "trackingWriter_Write tw q wq fs = (int (length q), None, ?tw1, ?fs1)"
      using Cons.prems(1,2) small fits wq
      by (simp add: Write_accepts file_Write_def)
    have inv1: "tw_inv ?tw1"
      using Cons.prems(1) fits by (simp add: tw_inv_def)
    have cnt: "i64 (written tw + int (length q)) = written ?tw1"
      using Cons.prems(1) fits
      by (simp add: i64_id tw_inv_def MaxTotalSize_def)
    have "io_Copy ?tw1 cs EOF (written ?tw1) ?fs1 =
         (written ?tw1 + chunk_len cs, None,
          ?tw1\<lparr>written := written ?tw1 + chunk_len cs\<rparr>,
          ?fs1(resolve (writer ?tw1) \<mapsto> File m ((c @ q) @ chunk_bytes cs)))"
      using Cons.prems a inv1 by (intro Cons.IH ok) simp_all
    moreover have "io_Copy tw (a # cs) EOF (written tw) fs =
        io_Copy ?tw1 cs EOF (written ?tw1) ?fs1"
      using False a W cnt by simp
    moreover have "chunk_len (a # cs) = int (length q) + chunk_len cs"
      "chunk_bytes (a # cs) = q @ chunk_bytes cs"
      using a by simp_all
    moreover have "?tw1\<lparr>written := written ?tw1 + chunk_len cs\<rparr> =
        tw\<lparr>written := written tw + (int (length q) + chunk_len cs)\<rparr>"
      by (simp add: add.assoc)
    moreover have "?fs1(resolve (writer ?tw1) \<mapsto> File m ((c @ q) @ chunk_bytes cs)) =
        fs(resolve (writer tw) \<mapsto> File m (c @ q @ chunk_bytes cs))"
      by simp
    moreover have "written ?tw1 + chunk_len cs = written tw + (int (length q) + chunk_len cs)"
      by simp
    ultimately show ?thesis by (simp only:)
  qed
qed

lemma os_MkdirAll_wf:
  assumes nf: "\<forall>q. prefix q (resolve p) \<longrightarrow> \<not> is_file (fs q)" and wf: "wf_fs fs"
  shows "wf_fs (\<lambda>x. if prefix x (resolve p) \<and> fs x = None then Some (Dir pm) else fs x)"
  unfolding wf_fs_def
proof (intro allI impI)
  fix q a
  let ?fs' = "\<lambda>x. if prefix x (resolve p) \<and> fs x = None then Some (Dir pm) else fs x"
  assume ex: "?fs' q \<noteq> None" and sp: "strict_prefix a q"
  show "is_dir (?fs' a)"
  proof (cases "fs q = None")
    case False
    with wf sp have "is_dir (fs a)" by (auto simp: wf_fs_def)
    then show ?thesis by (auto simp: is_dir_def)
  next
    case True
    with ex have "prefix q (resolve p)" by (auto split: if_splits)
    with sp have pa: "prefix a (resolve p)"
      by (meson prefix_order.order_trans strict_prefix_def prefix_order.less_imp_le)
    show ?thesis
    proof (cases "fs a = None")
      case True
      with pa show ?thesis by (simp add: is_dir_def)
    next
      case False
      with nf pa have "is_dir (fs a)" by (simp add: not_file_dir)
      with False show ?thesis by (auto simp: is_dir_def)
    qed
  qed
qed

lemma handleDirectory_ok:
  assumes nf: "\<forall>q. prefix q (resolve target) \<longrightarrow> \<not> is_file (fs q)" and wf: "wf_fs fs"
    and root: "is_dir (fs R)" and acc: "access_ok fs R" and pre: "prefix R (resolve target)"
    and nm: "\<forall>e \<in> set (resolve target). length e \<le> NAME_MAX"
    and pl: "path_len (resolve target) < PATH_MAX"
    and pm: "may_search (perm_or h 493)" "may_write (perm_or h 493)"
  shows "\<exists>fs'. handleDirectory target h fs = (None, fs') \<and> wf_fs fs' \<and> access_ok fs' R
           \<and> is_dir (fs' (resolve target))
           \<and> (\<forall>q. fs q \<noteq> None \<longrightarrow> fs' q = fs q)
           \<and> (\<forall>q. fs' q \<noteq> None \<and> fs q = None \<longrightarrow> prefix q (resolve target) \<and> is_dir (fs' q))"
proof (cases "os_Stat fs target")
  case None
  let ?pm = "perm_or h 493"
  let ?fs' = "\<lambda>x. if prefix x (resolve target) \<and> fs x = None then Some (Dir ?pm) else fs x"
  have "mkdir_ok fs (resolve target) ?pm"
    by (rule mkdir_ok_under_root[OF root acc pre nf nm pl pm])
  from mkdir_ok_succeeds[OF this] obtain fs' where mk: "os_MkdirAll fs target ?pm = Inr fs'"
    by blast
  from os_MkdirAll_Inr[OF mk] have fs': "fs' = ?fs'" .
  have hd: "handleDirectory target h fs = (None, ?fs')"
    using None mk fs' by (simp add: handleDirectory_def)
  have wf': "wf_fs ?fs'"
    using nf wf by (rule os_MkdirAll_wf)
  have acc': "access_ok ?fs' R"
    using acc pm by (rule access_ok_mkdir)
  have d: "is_dir (?fs' (resolve target))"
    using os_MkdirAll_frame[OF mk] unfolding fs' by blast
  have new: "\<forall>q. ?fs' q \<noteq> None \<and> fs q = None \<longrightarrow> prefix q (resolve target) \<and> is_dir (?fs' q)"
    by (auto simp: is_dir_def split: if_splits)
  have keep: "\<forall>q. fs q \<noteq> None \<longrightarrow> ?fs' q = fs q"
    by simp
  from hd wf' acc' d keep new show ?thesis
    by (intro exI[of _ ?fs']) blast
next
  case (Some nd)
  then have ex: "fs (resolve target) = Some nd"
    by (rule os_Stat_Some)
  moreover from nf have "\<not> is_file (fs (resolve target))"
    by simp
  ultimately have d: "is_dir (fs (resolve target))"
    by (simp add: not_file_dir)
  with Some ex have "handleDirectory target h fs = (None, fs)"
    by (auto simp: handleDirectory_def is_dir_def split: node.splits)
  with wf acc d show ?thesis
    by auto
qed

lemma handleRegularFile_Inr:
  assumes "os_MkdirAll fs (filepath_Dir target) 493 = Inr fs1"
    and "os_OpenFile fs1 target (perm_or h 420) = Inr fs2"
    and "io_Copy \<lparr>writer = target, currentTotal = cur, written = 0\<rparr> (fst tr) (snd tr) 0 fs2 =
           (n, None, tw, fs3)"
    and "\<not> i64 (Size h * 2) < n"
  shows "handleRegularFile target h tr cur fs = (Inr n, fs3)"
  using assms by (simp add: handleRegularFile_def)

lemma handleRegularFile_ok:
  assumes dirl: "resolve (filepath_Dir target) = butlast (resolve target)"
    and nf: "\<forall>q. prefix q (resolve target) \<longrightarrow> \<not> is_file (fs q)"
    and absent: "fs (resolve target) = None"
    and wf: "wf_fs fs" and fr: "framed h tr"
    and sz: "0 \<le> Size h" and cur: "0 \<le> cur" "cur + Size h \<le> MaxTotalSize"
    and root: "is_dir (fs R)" and acc: "access_ok fs R"
    and under: "strict_prefix R (resolve target)"
    and nm: "\<forall>e \<in> set (resolve target). length e \<le> NAME_MAX"
    and pl: "path_len (resolve target) < PATH_MAX"
  shows "\<exists>fs'. handleRegularFile target h tr cur fs = (Inr (Size h), fs') \<and> wf_fs fs'
           \<and> access_ok fs' R
           \<and> fs' (resolve target) = Some (File (perm_or h 420) (chunk_bytes (fst tr)))
           \<and> (\<forall>q. fs q \<noteq> None \<longrightarrow> fs' q = fs q)
           \<and> (\<forall>q. fs' q \<noteq> None \<and> fs q = None \<and> q \<noteq> resolve target \<longrightarrow>
                 strict_prefix q (resolve target) \<and> is_dir (fs' q))"
proof -
  define T where "T = resolve target"
  define P where "P = butlast T"
  define fs1 where "fs1 = (\<lambda>x. if prefix x P \<and> fs x = None then Some (Dir 493) else fs x)"
  define pm where "pm = perm_or h 420"
  define fs2 where "fs2 = fs1(T \<mapsto> File pm [])"
  define fs3 where "fs3 = fs1(T \<mapsto> File pm (chunk_bytes (fst tr)))"
  from under obtain z where z: "T = R @ z" "z \<noteq> []"
    by (auto simp: T_def strict_prefix_def prefix_def)
  then have ne: "T \<noteq> []"
    by simp
  have TP: "T = P @ [last T]"
    using ne by (simp add: P_def)
  have Pz: "P = R @ butlast z"
    using z by (simp add: P_def butlast_append)
  then have RP: "prefix R P"
    by simp
  have PT: "strict_prefix P T"
    by (subst TP) (simp add: strict_prefix_def)
  have pre: "strict_prefix x T" if "prefix x P" for x
    using that PT by (meson prefix_order.le_less_trans)
  have nfT: "\<forall>q. prefix q T \<longrightarrow> \<not> is_file (fs q)"
    using nf by (simp add: T_def)
  have nfP: "\<forall>q. prefix q P \<longrightarrow> \<not> is_file (fs q)"
    using nfT pre by (auto simp: strict_prefix_def)
  have nmT: "\<forall>e \<in> set T. length e \<le> NAME_MAX"
    using nm by (simp add: T_def)
  have nmP: "\<forall>e \<in> set P. length e \<le> NAME_MAX"
    using nmT by (auto simp: P_def dest: in_set_butlastD)
  have "path_len T = path_len P + Suc (length (last T))"
    by (subst TP) simp
  moreover have plT: "path_len T < PATH_MAX"
    using pl by (simp add: T_def)
  ultimately have plP: "path_len P < PATH_MAX"
    by simp
  have dP: "resolve (filepath_Dir target) = P"
    by (simp add: dirl P_def T_def)
  have "mkdir_ok fs (resolve (filepath_Dir target)) 493"
    unfolding dP
    by (rule mkdir_ok_under_root[OF root acc RP nfP nmP plP ex_perm(1,2)])
  from mkdir_ok_succeeds[OF this] obtain fsx where
    mk0: "os_MkdirAll fs (filepath_Dir target) 493 = Inr fsx"
    by blast
  from os_MkdirAll_Inr[OF mk0] have "fsx = fs1"
    by (simp add: dP fs1_def)
  with mk0 have mk: "os_MkdirAll fs (filepath_Dir target) 493 = Inr fs1"
    by simp
  have wf1: "wf_fs fs1"
    unfolding fs1_def using os_MkdirAll_wf[OF nfP[folded dP] wf, of 493] by (simp add: dP)
  have acc1: "access_ok fs1 R"
    unfolding fs1_def using acc ex_perm(1,2) by (rule access_ok_mkdir)
  have acc1a: "\<exists>m. fs1 x = Some (Dir m) \<and> may_search m" if "strict_prefix x R" for x
    using acc1 that unfolding access_ok_def by blast
  have acc1b: "may_search m \<and> may_write m" if "prefix R x" "fs1 x = Some (Dir m)" for x m
    using acc1 that unfolding access_ok_def by blast
  have T1: "fs1 T = None"
    using absent PT by (auto simp: fs1_def T_def strict_prefix_def)
  have dirs1: "is_dir (fs1 x)" if "prefix x P" for x
    using os_MkdirAll_frame[OF mk] that by (simp add: dP)
  have "is_dir (fs1 P)"
    by (rule dirs1) simp
  then obtain dm where dm: "fs1 P = Some (Dir dm)"
    by (cases "fs1 P") (auto simp: is_dir_def split: node.splits)
  from acc1b[OF RP dm] have dmok: "may_search dm" "may_write dm"
    by simp_all
  have lk: "lookup fs1 [] P = Inr (Dir dm)"
  proof (rule lookup_ok)
    show "\<forall>x. strict_prefix x P \<longrightarrow> (\<exists>m. fs1 ([] @ x) = Some (Dir m) \<and> may_search m)"
    proof (intro allI impI)
      fix x assume sp: "strict_prefix x P"
      then have px: "prefix x P" by (simp add: strict_prefix_def)
      from dirs1[OF px] obtain m where m: "fs1 x = Some (Dir m)"
        by (cases "fs1 x") (auto simp: is_dir_def split: node.splits)
      from RP px have "prefix R x \<or> prefix x R"
        by (rule prefix_same_cases)
      then have "may_search m"
      proof
        assume "prefix R x"
        from acc1b[OF this m] show ?thesis by simp
      next
        assume xR: "prefix x R"
        show ?thesis
        proof (cases "x = R")
          case True
          then have "prefix R x" by simp
          from acc1b[OF this m] show ?thesis by simp
        next
          case False
          with xR have "strict_prefix x R" by (simp add: strict_prefix_def)
          from acc1a[OF this] m show ?thesis by simp
        qed
      qed
      with m show "\<exists>m. fs1 ([] @ x) = Some (Dir m) \<and> may_search m"
        by simp
    qed
    show "\<forall>e \<in> set P. length e \<le> NAME_MAX" by (rule nmP)
    show "fs1 ([] @ P) = Some (Dir dm)" using dm by simp
  qed
  have lastnm: "length (last T) \<le> NAME_MAX"
    using nmT ne by simp
  have op: "os_OpenFile fs1 target pm = Inr fs2"
    using T1 ne lk dmok lastnm plT
    by (simp add: os_OpenFile_def Let_def T_def[symmetric] P_def[symmetric] fs2_def)
  define tw where "tw = \<lparr>writer = target, currentTotal = cur, written = 0\<rparr>"
  have f2: "fs2 (resolve (writer tw)) = Some (File pm [])"
    by (simp add: fs2_def tw_def T_def)
  have "io_Copy tw (fst tr) EOF (written tw) fs2 =
          (written tw + chunk_len (fst tr), None,
           tw\<lparr>written := written tw + chunk_len (fst tr)\<rparr>,
           fs2(resolve (writer tw) \<mapsto> File pm ([] @ chunk_bytes (fst tr))))"
    using fr cur sz f2 by (intro io_Copy_all) (simp_all add: tw_inv_def framed_def tw_def)
  then have cp: "io_Copy \<lparr>writer = target, currentTotal = cur, written = 0\<rparr>
                   (fst tr) (snd tr) 0 fs2 =
          (Size h, None, tw\<lparr>written := Size h\<rparr>, fs3)"
    using fr by (simp add: framed_def tw_def fs2_def fs3_def T_def)
  have "i64 (Size h * 2) = Size h * 2"
    using sz cur by (intro i64_id) (simp_all add: MaxTotalSize_def)
  with sz have nobig: "\<not> i64 (Size h * 2) < Size h" by simp
  have res: "handleRegularFile target h tr cur fs = (Inr (Size h), fs3)"
    by (rule handleRegularFile_Inr[OF mk op[unfolded pm_def] cp nobig])
  have wf3: "wf_fs fs3"
    unfolding wf_fs_def
  proof (intro allI impI)
    fix q a
    assume ex: "fs3 q \<noteq> None" and sp: "strict_prefix a q"
    have d: "is_dir (fs1 a)"
    proof (cases "q = T")
      case True
      with sp have "strict_prefix a (P @ [last T])" using TP by simp
      then have "prefix a P" by (auto simp: strict_prefix_def prefix_snoc)
      then show ?thesis by (rule dirs1)
    next
      case False
      with ex have "fs1 q \<noteq> None" by (simp add: fs3_def)
      with wf1 sp show ?thesis by (simp add: wf_fs_def)
    qed
    with T1 have "a \<noteq> T" by (auto simp: is_dir_def)
    with d show "is_dir (fs3 a)" by (simp add: fs3_def)
  qed
  have "\<not> strict_prefix T R"
    using z by (auto simp: strict_prefix_def)
  with acc1 have acc3: "access_ok fs3 R"
    unfolding fs3_def by (rule access_ok_file)
  have keep: "\<forall>q. fs q \<noteq> None \<longrightarrow> fs3 q = fs q"
    using absent by (auto simp: fs3_def fs1_def T_def)
  have new: "\<forall>q. fs3 q \<noteq> None \<and> fs q = None \<and> q \<noteq> T \<longrightarrow> strict_prefix q T \<and> is_dir (fs3 q)"
    using pre by (auto simp: fs3_def fs1_def is_dir_def split: if_splits)
  have content: "fs3 T = Some (File pm (chunk_bytes (fst tr)))"
    by (simp add: fs3_def)
  from res wf3 acc3 keep new content show ?thesis
    unfolding T_def[symmetric] pm_def[symmetric] by (intro exI[of _ fs3]) simp
qed

lemma Join_rooted:
  assumes "filepath_IsAbs absDst"
  shows "filepath_Join [absDst, n] = filepath_Clean (absDst @ CHR ''/'' # n)"
    and "filepath_IsAbs (absDst @ CHR ''/'' # n)"
  using assms by (auto simp: filepath_Join_def filepath_IsAbs_def split: list.splits)

lemma target_Dir:
  assumes "filepath_IsAbs absDst"
  shows "resolve (filepath_Dir (filepath_Join [absDst, n])) =
           butlast (resolve (filepath_Join [absDst, n]))"
proof -
  let ?p = "absDst @ CHR ''/'' # n"
  note J = Join_rooted[OF assms, of n]
  note C = filepath_Clean_rooted[OF J(2)]
  have "resolve (filepath_Join [absDst, n]) = resolve ?p"
    by (simp add: J(1) resolve_Clean[OF J(2)])
  moreover have "resolve (filepath_Dir (filepath_Join [absDst, n])) = butlast (resolve ?p)"
    unfolding J(1) C(1) by (rule resolve_Dir_normal[OF C(2)])
  ultimately show ?thesis by simp
qed

lemma declared_total_nonneg:
  "list_all (entry_ok wd absDst) items \<Longrightarrow> 0 \<le> declared_total items"
proof (induction items)
  case Nil
  then show ?case by simp
next
  case (Cons it items)
  then show ?case
    by (cases it) (auto simp: framed_def chunk_len_def)
qed

lemma extractArchive_ok:
  assumes abs: "filepath_IsAbs absDst"
    and ok: "list_all (entry_ok wd absDst) items"
    and cf: "conflict_free absDst items"
    and t: "0 \<le> t" "t + declared_total items \<le> MaxTotalSize"
    and I1: "\<forall>h tr. Entry h tr \<in> set items \<longrightarrow>
                (\<forall>q. prefix q (tpath absDst h) \<longrightarrow> \<not> is_file (fs q))"
    and I2: "\<forall>h tr. Entry h tr \<in> set items \<and> Typeflag h = TypeReg \<longrightarrow>
                fs (tpath absDst h) = None \<and> strict_prefix R (tpath absDst h)"
    and wf: "wf_fs fs"
    and adm: "list_all (os_admits absDst) items"
    and I3: "\<forall>h tr. Entry h tr \<in> set items \<longrightarrow> prefix R (tpath absDst h)"
    and root: "is_dir (fs R)" and acc: "access_ok fs R"
  shows "\<exists>fs'. extractArchive wd items absDst t fs = (None, t + declared_total items, fs')
           \<and> wf_fs fs' \<and> access_ok fs' R
           \<and> (\<forall>h tr. Entry h tr \<in> set items \<and> Typeflag h = TypeReg \<longrightarrow>
                 fs' (tpath absDst h) = Some (File (perm_or h 420) (chunk_bytes (fst tr))))
           \<and> (\<forall>h tr. Entry h tr \<in> set items \<and> Typeflag h = TypeDir \<longrightarrow>
                 is_dir (fs' (tpath absDst h)))
           \<and> (\<forall>q. fs q \<noteq> None \<longrightarrow> fs' q = fs q)
           \<and> (\<forall>q. fs' q \<noteq> None \<and> fs q = None \<longrightarrow>
                 (\<exists>h tr. Entry h tr \<in> set items \<and> prefix q (tpath absDst h)))"
  using ok cf t I1 I2 wf adm I3 root acc
proof (induction items arbitrary: t fs)
  case Nil
  then show ?case by auto
next
  case (Cons it rest)
  from Cons.prems(1) obtain h tr where it: "it = Entry h tr"
    by (cases it) auto
  let ?target = "filepath_Join [absDst, Name h]"
  let ?T = "tpath absDst h"
  have T: "resolve ?target = ?T" by (simp add: tpath_def)
  from Cons.prems(1) it have
    kind: "Typeflag h = TypeReg \<or> Typeflag h = TypeDir"
    and small: "\<not> MaxFileSize < Size h"
    and safe: "isPathSafe wd ?target absDst"
    and fr: "Typeflag h = TypeReg \<Longrightarrow> framed h tr"
    and okr: "list_all (entry_ok wd absDst) rest"
    by auto
  from Cons.prems(2) it have cfr: "conflict_free absDst rest"
    and pair: "\<And>h' tr'. Entry h' tr' \<in> set rest \<Longrightarrow>
        (Typeflag h = TypeReg \<longrightarrow> \<not> prefix ?T (tpath absDst h'))
        \<and> (Typeflag h' = TypeReg \<longrightarrow> \<not> prefix (tpath absDst h') ?T)"
    by (auto simp: list_all_iff split: item.splits)
  have mem: "Entry h tr \<in> set (it # rest)"
    using it by simp
  from Cons.prems(8) it have
    pl: "path_len (resolve ?target) < PATH_MAX"
    and nm: "\<forall>e \<in> set (resolve ?target). length e \<le> NAME_MAX"
    and pm: "Typeflag h = TypeDir \<Longrightarrow> may_search (perm_or h 493)"
      "Typeflag h = TypeDir \<Longrightarrow> may_write (perm_or h 493)"
    and admr: "list_all (os_admits absDst) rest"
    by (simp_all add: T list_all_iff)
  from Cons.prems(9) mem have under: "prefix R (resolve ?target)"
    unfolding T by blast
  have I3r: "\<forall>h' tr'. Entry h' tr' \<in> set rest \<longrightarrow> prefix R (tpath absDst h')"
  proof (intro allI impI)
    fix h' tr' assume "Entry h' tr' \<in> set rest"
    then have "Entry h' tr' \<in> set (it # rest)" by simp
    with Cons.prems(9) show "prefix R (tpath absDst h')" by blast
  qed
  have nf: "\<forall>q. prefix q (resolve ?target) \<longrightarrow> \<not> is_file (fs q)"
    unfolding T using Cons.prems(5) mem by blast
  have I1r: "\<not> is_file (fs q)"
    if "Entry h' tr' \<in> set rest" "prefix q (tpath absDst h')" for h' tr' q
  proof -
    from that(1) have "Entry h' tr' \<in> set (it # rest)" by simp
    with Cons.prems(5) that(2) show ?thesis by blast
  qed
  have I2r: "fs (tpath absDst h') = None \<and> strict_prefix R (tpath absDst h')"
    if "Entry h' tr' \<in> set rest" "Typeflag h' = TypeReg" for h' tr'
  proof -
    from that(1) have "Entry h' tr' \<in> set (it # rest)" by simp
    with Cons.prems(6) that(2) show ?thesis by blast
  qed
  have restnn: "0 \<le> declared_total rest"
    using okr by (rule declared_total_nonneg)
  have step: "extractArchive wd (it # rest) absDst t fs =
        (case processEntry h ?target tr t fs of
           (None, t1, fs1) \<Rightarrow> extractArchive wd rest absDst t1 fs1
         | (Some e, t1, fs1) \<Rightarrow> (Some e, t1, fs1))"
    using it small safe by (simp add: Let_def)
  \<comment> \<open>the state after the entry\<close>
  have "\<exists>fs1. processEntry h ?target tr t fs =
                (None, t + (if Typeflag h = TypeReg then Size h else 0), fs1)
          \<and> wf_fs fs1 \<and> access_ok fs1 R
          \<and> (Typeflag h = TypeReg \<longrightarrow>
                fs1 ?T = Some (File (perm_or h 420) (chunk_bytes (fst tr))))
          \<and> (Typeflag h = TypeDir \<longrightarrow> is_dir (fs1 ?T))
          \<and> (\<forall>q. fs q \<noteq> None \<longrightarrow> fs1 q = fs q)
          \<and> (\<forall>q. fs1 q \<noteq> None \<and> fs q = None \<and> q \<noteq> ?T \<longrightarrow>
                strict_prefix q ?T \<and> is_dir (fs1 q))
          \<and> (Typeflag h = TypeDir \<longrightarrow> \<not> is_file (fs1 ?T))"
  proof (cases "Typeflag h = TypeDir")
    case True
    from handleDirectory_ok[OF nf Cons.prems(7,10,11) under nm pl pm[OF True]] obtain fs1 where
      hd: "handleDirectory ?target h fs = (None, fs1)" and "wf_fs fs1" and "access_ok fs1 R"
      and "is_dir (fs1 (resolve ?target))"
      and "\<forall>q. fs q \<noteq> None \<longrightarrow> fs1 q = fs q"
      and "\<forall>q. fs1 q \<noteq> None \<and> fs q = None \<longrightarrow> prefix q (resolve ?target) \<and> is_dir (fs1 q)"
      by blast
    moreover have "processEntry h ?target tr t fs = (None, t, fs1)"
      using True hd by (simp add: processEntry_def)
    ultimately show ?thesis
      using True T by (intro exI[of _ fs1]) (auto simp: strict_prefix_def dest: dir_not_file)
  next
    case False
    with kind have reg: "Typeflag h = TypeReg" by simp
    from Cons.prems(6) mem reg have absent: "fs ?T = None" and sunder: "strict_prefix R ?T"
      by blast+
    have frd: "framed h tr" using fr reg .
    then have sz: "0 \<le> Size h"
      by (auto simp: framed_def chunk_len_def)
    have bound: "t + Size h \<le> MaxTotalSize"
      using Cons.prems(4) it reg restnn by simp
    from handleRegularFile_ok[of ?target fs h tr t R, unfolded T,
        OF target_Dir[OF abs, of "Name h", unfolded T] nf[unfolded T] absent
           Cons.prems(7) frd sz Cons.prems(3) bound Cons.prems(10,11) sunder
           nm[unfolded T] pl[unfolded T]]
    obtain fs1 where
      hr: "handleRegularFile ?target h tr t fs = (Inr (Size h), fs1)" and "wf_fs fs1"
      and "access_ok fs1 R"
      and "fs1 ?T = Some (File (perm_or h 420) (chunk_bytes (fst tr)))"
      and "\<forall>q. fs q \<noteq> None \<longrightarrow> fs1 q = fs q"
      and "\<forall>q. fs1 q \<noteq> None \<and> fs q = None \<and> q \<noteq> ?T \<longrightarrow> strict_prefix q ?T \<and> is_dir (fs1 q)"
      by blast
    moreover have "i64 (t + Size h) = t + Size h"
      using Cons.prems(3) sz bound by (intro i64_id) (simp_all add: MaxTotalSize_def)
    then have "processEntry h ?target tr t fs = (None, t + Size h, fs1)"
      using reg hr by (simp add: processEntry_def)
    ultimately show ?thesis
      using reg False by (intro exI[of _ fs1]) auto
  qed
  then obtain fs1 where
    pe: "processEntry h ?target tr t fs =
           (None, t + (if Typeflag h = TypeReg then Size h else 0), fs1)"
    and wf1: "wf_fs fs1" and acc1: "access_ok fs1 R"
    and file1: "Typeflag h = TypeReg \<Longrightarrow>
                  fs1 ?T = Some (File (perm_or h 420) (chunk_bytes (fst tr)))"
    and dir1: "Typeflag h = TypeDir \<Longrightarrow> is_dir (fs1 ?T)"
    and keep1: "\<And>q. fs q \<noteq> None \<Longrightarrow> fs1 q = fs q"
    and new1: "\<And>q. fs1 q \<noteq> None \<Longrightarrow> fs q = None \<Longrightarrow> q \<noteq> ?T \<Longrightarrow>
                  strict_prefix q ?T \<and> is_dir (fs1 q)"
    and dirnf: "Typeflag h = TypeDir \<Longrightarrow> \<not> is_file (fs1 ?T)"
    by blast
  let ?t1 = "t + (if Typeflag h = TypeReg then Size h else 0)"
  have t1: "0 \<le> ?t1" "?t1 + declared_total rest \<le> MaxTotalSize"
    using Cons.prems(3,4) it fr by (auto simp: framed_def chunk_len_def)
  have I1': "\<forall>h' tr'. Entry h' tr' \<in> set rest \<longrightarrow>
                (\<forall>q. prefix q (tpath absDst h') \<longrightarrow> \<not> is_file (fs1 q))"
  proof (intro allI impI)
    fix h' tr' q
    assume mem: "Entry h' tr' \<in> set rest" and pq: "prefix q (tpath absDst h')"
    show "\<not> is_file (fs1 q)"
    proof (cases "fs q = None")
      case False
      with keep1[of q] I1r[OF mem pq] show ?thesis by simp
    next
      case True
      show ?thesis
      proof (cases "q = ?T")
        case qT: True
        with pq pair[OF mem] have "Typeflag h \<noteq> TypeReg" by auto
        with kind dirnf qT show ?thesis by auto
      next
        case False
        show ?thesis
        proof (cases "fs1 q = None")
          case True
          then show ?thesis by (simp add: is_file_def)
        next
          case nn: False
          from new1[OF nn True False] show ?thesis
            by (auto simp: is_dir_def is_file_def split: option.splits node.splits)
        qed
      qed
    qed
  qed
  have I2': "\<forall>h' tr'. Entry h' tr' \<in> set rest \<and> Typeflag h' = TypeReg \<longrightarrow>
                fs1 (tpath absDst h') = None \<and> strict_prefix R (tpath absDst h')"
  proof (intro allI impI)
    fix h' tr'
    assume a: "Entry h' tr' \<in> set rest \<and> Typeflag h' = TypeReg"
    with I2r[of h' tr'] have old: "fs (tpath absDst h') = None"
      "strict_prefix R (tpath absDst h')"
      by simp_all
    from a pair have np: "\<not> prefix (tpath absDst h') ?T" by blast
    have "fs1 (tpath absDst h') = None"
    proof (rule ccontr)
      assume nn: "fs1 (tpath absDst h') \<noteq> None"
      from np have "tpath absDst h' \<noteq> ?T" by auto
      from new1[OF nn old(1) this] np show False
        by (simp add: strict_prefix_def)
    qed
    with old show "fs1 (tpath absDst h') = None \<and> strict_prefix R (tpath absDst h')" by simp
  qed
  have root1: "is_dir (fs1 R)"
    using keep1[of R] Cons.prems(10) by (simp add: is_dir_exists)
  from Cons.IH[OF okr cfr t1 I1' I2' wf1 admr I3r root1 acc1] obtain fs' where
    ex: "extractArchive wd rest absDst ?t1 fs1 = (None, ?t1 + declared_total rest, fs')"
    and wf': "wf_fs fs'" and acc': "access_ok fs' R"
    and files: "\<And>h' tr'. Entry h' tr' \<in> set rest \<Longrightarrow> Typeflag h' = TypeReg \<Longrightarrow>
          fs' (tpath absDst h') = Some (File (perm_or h' 420) (chunk_bytes (fst tr')))"
    and dirs: "\<And>h' tr'. Entry h' tr' \<in> set rest \<Longrightarrow> Typeflag h' = TypeDir \<Longrightarrow>
          is_dir (fs' (tpath absDst h'))"
    and keep': "\<And>q. fs1 q \<noteq> None \<Longrightarrow> fs' q = fs1 q"
    and new': "\<And>q. fs' q \<noteq> None \<Longrightarrow> fs1 q = None \<Longrightarrow>
          \<exists>h' tr'. Entry h' tr' \<in> set rest \<and> prefix q (tpath absDst h')"
    by blast
  have res: "extractArchive wd (it # rest) absDst t fs =
               (None, t + declared_total (it # rest), fs')"
    using step pe ex it by (simp add: add.assoc)
  have C1: "fs' (tpath absDst h') = Some (File (perm_or h' 420) (chunk_bytes (fst tr')))"
    if "Entry h' tr' \<in> set (it # rest)" "Typeflag h' = TypeReg" for h' tr'
  proof (cases "Entry h' tr' \<in> set rest")
    case True
    with that files show ?thesis by blast
  next
    case False
    with that it have "h' = h" "tr' = tr" by auto
    with that file1 keep'[of ?T] show ?thesis by auto
  qed
  have C2: "is_dir (fs' (tpath absDst h'))"
    if "Entry h' tr' \<in> set (it # rest)" "Typeflag h' = TypeDir" for h' tr'
  proof (cases "Entry h' tr' \<in> set rest")
    case True
    with that dirs show ?thesis by blast
  next
    case False
    with that it have h': "h' = h" by auto
    with that dir1 have d: "is_dir (fs1 ?T)" by simp
    with keep'[of ?T] have "fs' ?T = fs1 ?T" by (simp add: is_dir_exists)
    with d h' show ?thesis by simp
  qed
  have C3: "fs' q = fs q" if "fs q \<noteq> None" for q
    using that keep1[OF that] keep'[of q] by simp
  have C4: "\<exists>h' tr'. Entry h' tr' \<in> set (it # rest) \<and> prefix q (tpath absDst h')"
    if "fs' q \<noteq> None" "fs q = None" for q
  proof (cases "fs1 q = None")
    case True
    from new'[OF that(1) True] show ?thesis by auto
  next
    case False
    show ?thesis
    proof (cases "q = ?T")
      case True
      with mem show ?thesis by blast
    next
      case qT: False
      from new1[OF False that(2) qT] have "prefix q ?T"
        by (simp add: strict_prefix_def)
      with mem show ?thesis by blast
    qed
  qed
  from res wf' acc' C1 C2 C3 C4 show ?case
    by (intro exI[of _ fs']) blast
qed

lemma Clean_idem:
  assumes "filepath_IsAbs p"
  shows "filepath_Clean (filepath_Clean p) = filepath_Clean p"
    and "filepath_IsAbs (filepath_Clean p)"
proof -
  note C = filepath_Clean_rooted[OF assms]
  show abs: "filepath_IsAbs (filepath_Clean p)"
    by (simp add: C(1) filepath_IsAbs_def)
  from filepath_Clean_rooted(1)[OF abs] show "filepath_Clean (filepath_Clean p) = filepath_Clean p"
    by (simp add: C(1) resolve_normal[OF C(2)])
qed

lemma filepath_Abs_clean:
  assumes "\<forall>d. wd = Some d \<longrightarrow> filepath_IsAbs d" and "filepath_Abs wd p = Some a"
  shows "\<exists>y. filepath_IsAbs y \<and> a = filepath_Clean y"
proof (cases "filepath_IsAbs p")
  case True
  with assms(2) show ?thesis by (auto simp: filepath_Abs_def)
next
  case False
  with assms obtain d where d: "wd = Some d" "filepath_IsAbs d" "a = filepath_Join [d, p]"
    by (auto simp: filepath_Abs_def split: option.splits)
  with Join_rooted[OF d(2), of p] show ?thesis by auto
qed

lemma split_sep_rooted_clean:
  assumes "\<forall>e \<in> set es. normal e"
  shows "split_sep (CHR ''/'' # join_sep es) = (if es = [] then [[], []] else [] # es)"
proof -
  have sf: "\<forall>e \<in> set es. CHR ''/'' \<notin> set e"
    using assms normal_slash_free by blast
  show ?thesis
    by (cases "es = []") (simp_all add: split_sep_join_sep[OF sf])
qed

lemma safe_prefix:
  assumes y: "filepath_IsAbs y" and absDst: "absDst = filepath_Clean y"
    and safe: "isPathSafe wd (filepath_Join [absDst, n]) absDst"
  shows "prefix (resolve absDst) (resolve (filepath_Join [absDst, n]))"
proof -
  let ?target = "filepath_Join [absDst, n]"
  let ?er = "resolve absDst" and ?et = "resolve ?target"
  have absD: "filepath_IsAbs absDst"
    unfolding absDst by (rule Clean_idem(2)[OF y])
  note J = Join_rooted[OF absD, of n]
  have D: "absDst = CHR ''/'' # join_sep ?er" and nr: "\<forall>e \<in> set ?er. normal e"
    using filepath_Clean_rooted[OF y] resolve_Clean[OF y] by (simp_all add: absDst)
  have Tt: "?target = CHR ''/'' # join_sep ?et" and nt: "\<forall>e \<in> set ?et. normal e"
    using filepath_Clean_rooted[OF J(2)] resolve_Clean[OF J(2)] by (simp_all add: J(1))
  have absT: "filepath_IsAbs ?target"
    unfolding J(1) by (rule Clean_idem(2)[OF J(2)])
  have "filepath_Abs wd ?target = Some ?target"
    using absT Clean_idem(1)[OF J(2)] by (simp add: filepath_Abs_def J(1))
  with safe have "prefix (absDst @ ''/'') ?target \<or> ?target = absDst"
    by (simp add: isPathSafe_def)
  then show ?thesis
  proof
    assume "?target = absDst"
    then show ?thesis by simp
  next
    assume "prefix (absDst @ ''/'') ?target"
    then obtain rest where r: "?target = absDst @ CHR ''/'' # rest"
      by (auto simp: prefix_def)
    have "split_sep ?target = split_sep absDst @ split_sep rest"
      by (subst r) (rule split_sep_append_sep)
    moreover have "split_sep ?target = (if ?et = [] then [[], []] else [] # ?et)"
      by (subst Tt) (rule split_sep_rooted_clean[OF nt])
    moreover have "split_sep absDst = (if ?er = [] then [[], []] else [] # ?er)"
      by (subst D) (rule split_sep_rooted_clean[OF nr])
    ultimately have eq: "(if ?et = [] then [[], []] else [] # ?et) =
        (if ?er = [] then [[], []] else [] # ?er) @ split_sep rest"
      by simp
    show ?thesis
    proof (cases "?er = []")
      case True
      then show ?thesis by simp
    next
      case False
      have "split_sep rest \<noteq> []" by simp
      with eq False show ?thesis
        by (cases "?et = []"; cases "?er") (auto simp: prefix_def)
    qed
  qed
qed

lemma conflict_free_root:
  assumes "conflict_free absDst items" and "Entry h tr \<in> set items" and "Typeflag h = TypeReg"
  shows "tpath absDst h \<noteq> resolve absDst"
  using assms
proof (induction items)
  case Nil
  then show ?case by simp
next
  case (Cons it items)
  then show ?case by (cases it) auto
qed

lemma entry_ok_safe:
  assumes "list_all (entry_ok wd absDst) items" and "Entry h tr \<in> set items"
  shows "isPathSafe wd (filepath_Join [absDst, Name h]) absDst"
  using assms by (auto simp: list_all_iff)

subsection \<open>Round trip\<close>

text \<open>
  Claim C8 (amended). Let the archive hold only regular-file and directory entries, with
  safe paths, declared sizes within the per-file limit and adding up to at most the total
  limit, each regular file with content as long as declared, and without conflict between
  the paths (no regular file at the root, at the path of another entry or above it). Let
  every target path and its elements be within the limits of the operating system, and
  the permission bits of every directory entry let the owner write and search. Let the
  destination root exist as a directory with nothing below it, in a file system that is a
  tree and takes every write, where the process may search the directories above the root
  and may search and write the root. Then the extraction succeeds; every regular-file
  entry is a file at its path under the root with the bytes of its content and the
  permission bits of its header (\<open>0644\<close> for zero); every directory entry is a
  directory at its path; the result is a tree again; what existed before is unchanged;
  and whatever else exists afterwards lies on the path to the target of some entry.
\<close>

theorem roundtrip:
  assumes wdabs: "\<forall>d. wd = Some d \<longrightarrow> filepath_IsAbs d"
    and abs: "filepath_Abs wd dst = Some absDst"
    and ok: "list_all (entry_ok wd absDst) items"
    and cf: "conflict_free absDst items"
    and tot: "declared_total items \<le> MaxTotalSize"
    and wf: "wf_fs fs"
    and root: "is_dir (fs (resolve absDst))"
    and empty: "\<forall>q. strict_prefix (resolve absDst) q \<longrightarrow> fs q = None"
    and adm: "list_all (os_admits absDst) items"
    and acc: "access_ok fs (resolve absDst)"
  shows "fst (UntarGz wd dst (Gzip items) fs) = None
         \<and> wf_fs (snd (UntarGz wd dst (Gzip items) fs))
         \<and> (\<forall>h tr. Entry h tr \<in> set items \<and> Typeflag h = TypeReg \<longrightarrow>
               snd (UntarGz wd dst (Gzip items) fs) (tpath absDst h) =
                 Some (File (perm_or h 420) (chunk_bytes (fst tr))))
         \<and> (\<forall>h tr. Entry h tr \<in> set items \<and> Typeflag h = TypeDir \<longrightarrow>
               is_dir (snd (UntarGz wd dst (Gzip items) fs) (tpath absDst h)))
         \<and> (\<forall>h tr. Entry h tr \<in> set items \<longrightarrow> prefix (resolve absDst) (tpath absDst h))
         \<and> (\<forall>q. fs q \<noteq> None \<longrightarrow> snd (UntarGz wd dst (Gzip items) fs) q = fs q)
         \<and> (\<forall>q. snd (UntarGz wd dst (Gzip items) fs) q \<noteq> None \<and> fs q = None \<longrightarrow>
               (\<exists>h tr. Entry h tr \<in> set items \<and> prefix q (tpath absDst h)))"
proof -
  let ?R = "resolve absDst"
  from filepath_Abs_clean[OF wdabs abs] obtain y where
    y: "filepath_IsAbs y" "absDst = filepath_Clean y"
    by blast
  have absD: "filepath_IsAbs absDst"
    unfolding y(2) by (rule Clean_idem(2)[OF y(1)])
  have under: "prefix ?R (tpath absDst h)" if "Entry h tr \<in> set items" for h tr
    unfolding tpath_def using safe_prefix[OF y] entry_ok_safe[OF ok that] by blast
  have anc: "is_dir (fs q)" if "prefix q ?R" for q
  proof (cases "q = ?R")
    case True
    with root show ?thesis by simp
  next
    case False
    with that have "strict_prefix q ?R" by (simp add: strict_prefix_def)
    moreover from root have "fs ?R \<noteq> None" by (rule is_dir_exists)
    ultimately show ?thesis
      using wf unfolding wf_fs_def by blast
  qed
  have I1: "\<forall>h tr. Entry h tr \<in> set items \<longrightarrow>
                (\<forall>q. prefix q (tpath absDst h) \<longrightarrow> \<not> is_file (fs q))"
  proof (intro allI impI)
    fix h tr q
    assume mem: "Entry h tr \<in> set items" and pq: "prefix q (tpath absDst h)"
    from under[OF mem] pq have "prefix q ?R \<or> strict_prefix ?R q"
      by (metis prefix_same_cases strict_prefix_def)
    then show "\<not> is_file (fs q)"
    proof
      assume "prefix q ?R"
      from anc[OF this] show ?thesis by (rule dir_not_file)
    next
      assume "strict_prefix ?R q"
      with empty show ?thesis by (simp add: is_file_def)
    qed
  qed
  have I2: "\<forall>h tr. Entry h tr \<in> set items \<and> Typeflag h = TypeReg \<longrightarrow>
                fs (tpath absDst h) = None \<and> strict_prefix ?R (tpath absDst h)"
  proof (intro allI impI)
    fix h tr
    assume a: "Entry h tr \<in> set items \<and> Typeflag h = TypeReg"
    with conflict_free_root[OF cf] have "tpath absDst h \<noteq> ?R" by blast
    moreover from a have "prefix ?R (tpath absDst h)"
      using under[of h tr] by simp
    ultimately have sp: "strict_prefix ?R (tpath absDst h)"
      by (auto simp: strict_prefix_def)
    with empty show "fs (tpath absDst h) = None \<and> strict_prefix ?R (tpath absDst h)"
      by auto
  qed
  have I3: "\<forall>h tr. Entry h tr \<in> set items \<longrightarrow> prefix ?R (tpath absDst h)"
    using under by blast
  from extractArchive_ok[OF absD ok cf _ _ I1 I2 wf adm I3 root acc, of 0] tot obtain fs' where
    ex: "extractArchive wd items absDst 0 fs = (None, 0 + declared_total items, fs')"
    and rest: "wf_fs fs'"
      "\<forall>h tr. Entry h tr \<in> set items \<and> Typeflag h = TypeReg \<longrightarrow>
          fs' (tpath absDst h) = Some (File (perm_or h 420) (chunk_bytes (fst tr)))"
      "\<forall>h tr. Entry h tr \<in> set items \<and> Typeflag h = TypeDir \<longrightarrow> is_dir (fs' (tpath absDst h))"
      "\<forall>q. fs q \<noteq> None \<longrightarrow> fs' q = fs q"
      "\<forall>q. fs' q \<noteq> None \<and> fs q = None \<longrightarrow>
          (\<exists>h tr. Entry h tr \<in> set items \<and> prefix q (tpath absDst h))"
    by auto
  have U: "UntarGz wd dst (Gzip items) fs = (None, fs')"
    using abs ex by (simp add: UntarGz_def)
  show ?thesis
    unfolding U fst_conv snd_conv using rest under by blast
qed

theorem roundtrip_witness:
  "filepath_Abs None ''/R'' = Some ''/R''
   \<and> list_all (entry_ok None ''/R'')
        [Entry ex_dir ([], EOF), Entry ex_file ([(''hi'', WriteOK)], EOF)]
   \<and> conflict_free ''/R'' [Entry ex_dir ([], EOF), Entry ex_file ([(''hi'', WriteOK)], EOF)]
   \<and> declared_total [Entry ex_dir ([], EOF), Entry ex_file ([(''hi'', WriteOK)], EOF)]
        \<le> MaxTotalSize
   \<and> wf_fs ex_fs \<and> is_dir (ex_fs (resolve ''/R''))
   \<and> list_all (os_admits ''/R'')
        [Entry ex_dir ([], EOF), Entry ex_file ([(''hi'', WriteOK)], EOF)]
   \<and> access_ok ex_fs (resolve ''/R'')
   \<and> fst (UntarGz None ''/R''
        (Gzip [Entry ex_dir ([], EOF), Entry ex_file ([(''hi'', WriteOK)], EOF)]) ex_fs) = None
   \<and> snd (UntarGz None ''/R''
        (Gzip [Entry ex_dir ([], EOF), Entry ex_file ([(''hi'', WriteOK)], EOF)]) ex_fs)
        [''R'', ''a'', ''b.txt''] = Some (File 420 ''hi'')
   \<and> is_dir (snd (UntarGz None ''/R''
        (Gzip [Entry ex_dir ([], EOF), Entry ex_file ([(''hi'', WriteOK)], EOF)]) ex_fs)
        [''R'', ''a''])"
proof -
  let ?items = "[Entry ex_dir ([], EOF), Entry ex_file ([(''hi'', WriteOK)], EOF)]"
  have 1: "\<forall>d. (None :: string option) = Some d \<longrightarrow> filepath_IsAbs d"
    by simp
  have 2: "filepath_Abs None ''/R'' = Some ''/R''"
    by code_simp
  have 3: "list_all (entry_ok None ''/R'') ?items"
    by code_simp
  have 4: "conflict_free ''/R'' ?items"
    by code_simp
  have 5: "declared_total ?items \<le> MaxTotalSize"
    by code_simp
  have 6: "wf_fs ex_fs"
    by (auto simp: wf_fs_def ex_fs_def is_dir_def strict_prefix_def prefix_Cons split: if_splits)
  have R: "resolve ''/R'' = [''R'']"
    by code_simp
  have 7: "is_dir (ex_fs (resolve ''/R''))"
    by code_simp
  have 8: "\<forall>q. strict_prefix (resolve ''/R'') q \<longrightarrow> ex_fs q = None"
    by (auto simp: R ex_fs_def strict_prefix_def)
  have 9: "list_all (os_admits ''/R'') ?items"
    by code_simp
  have 10: "access_ok ex_fs (resolve ''/R'')"
    by (auto simp: access_ok_def R ex_fs_def ex_perm strict_prefix_def prefix_Cons
             split: if_splits)
  have T: "tpath ''/R'' ex_file = [''R'', ''a'', ''b.txt'']" "tpath ''/R'' ex_dir = [''R'', ''a'']"
    "perm_or ex_file 420 = 420" "Typeflag ex_file = TypeReg" "Typeflag ex_dir = TypeDir"
    by code_simp+
  note C = roundtrip [OF 1 2 3 4 5 6 7 8 9 10]
  from C have c1: "fst (UntarGz None ''/R'' (Gzip ?items) ex_fs) = None"
    by (rule conjunct1)
  from C have "\<forall>h tr. Entry h tr \<in> set ?items \<and> Typeflag h = TypeReg \<longrightarrow>
      snd (UntarGz None ''/R'' (Gzip ?items) ex_fs) (tpath ''/R'' h) =
        Some (File (perm_or h 420) (chunk_bytes (fst tr)))"
    by (elim conjE)
  from this[rule_format, of ex_file "([(''hi'', WriteOK)], EOF)"] T
  have c2: "snd (UntarGz None ''/R'' (Gzip ?items) ex_fs) [''R'', ''a'', ''b.txt'']
      = Some (File 420 ''hi'')"
    by simp
  from C have "\<forall>h tr. Entry h tr \<in> set ?items \<and> Typeflag h = TypeDir \<longrightarrow>
      is_dir (snd (UntarGz None ''/R'' (Gzip ?items) ex_fs) (tpath ''/R'' h))"
    by (elim conjE)
  from this[rule_format, of ex_dir "([], EOF)"] T
  have c3: "is_dir (snd (UntarGz None ''/R'' (Gzip ?items) ex_fs) [''R'', ''a''])"
    by simp
  show ?thesis
    by (intro conjI 2 3 4 5 6 7 9 10 c1 c2 c3)
qed

text \<open>
  The claim as stated fails for an archive with a conflict between its paths: the regular
  file \<open>a\<close> and the directory \<open>a\<close> are both safe and small, with short names and
  usual permission bits, the file is extracted, and the directory entry fails because a
  regular file exists at its path.
\<close>

theorem roundtrip_counterexample:
  "filepath_Abs None ''/R'' = Some ''/R''
   \<and> list_all (entry_ok None ''/R'')
        [Entry (ex_file\<lparr>Name := ''a''\<rparr>) ([(''hi'', WriteOK)], EOF),
         Entry (ex_dir\<lparr>Name := ''a''\<rparr>) ([], EOF)]
   \<and> list_all (os_admits ''/R'')
        [Entry (ex_file\<lparr>Name := ''a''\<rparr>) ([(''hi'', WriteOK)], EOF),
         Entry (ex_dir\<lparr>Name := ''a''\<rparr>) ([], EOF)]
   \<and> declared_total
        [Entry (ex_file\<lparr>Name := ''a''\<rparr>) ([(''hi'', WriteOK)], EOF),
         Entry (ex_dir\<lparr>Name := ''a''\<rparr>) ([], EOF)] \<le> MaxTotalSize
   \<and> is_dir (ex_fs (resolve ''/R''))
   \<and> fst (UntarGz None ''/R''
        (Gzip [Entry (ex_file\<lparr>Name := ''a''\<rparr>) ([(''hi'', WriteOK)], EOF),
               Entry (ex_dir\<lparr>Name := ''a''\<rparr>) ([], EOF)]) ex_fs) =
       Some (ErrCreateDirectory ''a'' (ErrNotADirectory ''/R/a''))"
  by code_simp

text \<open>
  Without the conditions on the names and on the permission bits the extraction fails as
  well: a regular file cannot be created in a directory that an earlier entry created
  without the write bit, and a directory with a name of 256 bytes cannot be created.
\<close>

lemma read_only_directory_refuses_file:
  "fst (UntarGz None ''/R''
        (Gzip [Entry (ex_dir\<lparr>Mode := 365\<rparr>) ([], EOF),
               Entry ex_file ([(''hi'', WriteOK)], EOF)]) ex_fs) =
       Some (ErrExtractFile ''a/b.txt'' (ErrCreateFile (ErrOS EACCES)))"
  by code_simp

lemma long_name_refused:
  "fst (UntarGz None ''/R''
        (Gzip [Entry (ex_dir\<lparr>Name := replicate 256 CHR ''a''\<rparr>) ([], EOF)]) ex_fs) =
       Some (ErrCreateDirectory (replicate 256 CHR ''a'') (ErrOS ENAMETOOLONG))"
  by code_simp

end
